theory Spec2Isabelle
  imports Complex_Main "HOL-Library.Word" "HOL-Library.Log_Nat"
begin

unbundle bit_operations_syntax

text \<open>
  Properties of the core of libgeodesk, proved over a shallow embedding of its source:
  the tile string form (\<^verbatim>\<open>Tile::formatReverse\<close>, \<^verbatim>\<open>Tile::fromString\<close>), the clause list
  of a \<^verbatim>\<open>Selector\<close>, the \<^verbatim>\<open>LengthUnit\<close> tables, the \<^verbatim>\<open>TaskQueue\<close>, the
  \<^verbatim>\<open>BitIterator\<close>, the \<^verbatim>\<open>Deduplicator\<close> and the page arithmetic of the
  \<^verbatim>\<open>BlobStore\<close>. The first chapter has the definitions, each next to the source text it
  renders; the second has the properties.
\<close>

chapter \<open>The model: data and operations, as the source has them\<close>

section \<open>Tile: formatting and parsing\<close>

subsection \<open>C strings and \<^verbatim>\<open>strtol\<close>\<close>

text \<open>
  A \<^verbatim>\<open>const char*\<close> is the list of the characters before the terminating NUL; reading
  \<^verbatim>\<open>*p\<close> at the end of the list gives NUL.
\<close>

definition NUL :: char where
  "NUL = CHR 0x00"

definition deref :: "string \<Rightarrow> char" where
  "deref p = (case p of [] \<Rightarrow> NUL | c # _ \<Rightarrow> c)"

text \<open>
  \<^verbatim>\<open>strtol(nptr, &endptr, 10)\<close> of the C library, in the C locale: it skips white
  space (space, \<^verbatim>\<open>\t \n \v \f \r\<close>), takes an optional sign and then the longest run of
  decimal digits; if there is no digit, nothing is converted, the value is 0 and
  \<^verbatim>\<open>endptr\<close> is \<^verbatim>\<open>nptr\<close>; a value outside the range of \<^verbatim>\<open>long\<close> is replaced
  by \<^verbatim>\<open>LONG_MAX\<close> or \<^verbatim>\<open>LONG_MIN\<close> (here those of a 64-bit \<^verbatim>\<open>long\<close>). The
  result is the value and the rest of the string at \<^verbatim>\<open>endptr\<close>.
\<close>

definition isspace :: "char \<Rightarrow> bool" where
  "isspace c \<longleftrightarrow>
     c = CHR 0x20 \<or> c = CHR 0x09 \<or> c = CHR 0x0A \<or> c = CHR 0x0B \<or> c = CHR 0x0C
     \<or> c = CHR 0x0D"

definition isdigit :: "char \<Rightarrow> bool" where
  "isdigit c \<longleftrightarrow> (48::nat) \<le> of_char c \<and> (of_char c :: nat) \<le> 57"

definition digit_value :: "char \<Rightarrow> nat" where
  "digit_value c = of_char c - 48"

definition decimal_value :: "string \<Rightarrow> nat" where
  "decimal_value ds = foldl (\<lambda>acc c. 10 * acc + digit_value c) 0 ds"

definition LONG_MAX :: int where
  "LONG_MAX = 2 ^ 63 - 1"

definition LONG_MIN :: int where
  "LONG_MIN = - (2 ^ 63)"

definition strtol :: "string \<Rightarrow> int \<times> string" where
  "strtol nptr =
     (let s1 = dropWhile isspace nptr;
          negative = (deref s1 = CHR ''-'');
          s2 = (if deref s1 = CHR ''-'' \<or> deref s1 = CHR ''+'' then tl s1 else s1);
          ds = takeWhile isdigit s2;
          v = int (decimal_value ds)
      in if ds = [] then (0, nptr)
         else if negative then (max LONG_MIN (- v), dropWhile isdigit s2)
         else (min LONG_MAX v, dropWhile isdigit s2))"

subsection \<open>The Tile class\<close>

text \<open>
  Modelled from the spec: the class \<^verbatim>\<open>Tile\<close> with its default constructor, its
  accessors \<^verbatim>\<open>zoom()\<close>, \<^verbatim>\<open>column()\<close>, \<^verbatim>\<open>row()\<close> and \<^verbatim>\<open>fromColumnRowZoom\<close>
  (\<^verbatim>\<open>geodesk/geom/Tile.h\<close> is not among the source files). The spec: a tile is
  ``identified by \<open>(zoom, column, row)\<close> with zoom in [0, 12]'', ``parsing failure yields
  an empty/null Tile'', and \<^verbatim>\<open>Tile::fromString("5/17/9")\<close> ``yields
  \<open>(zoom=5, col=17, row=9)\<close>''. \<open>Tile_null\<close> is the tile that \<^verbatim>\<open>Tile()\<close> makes.
\<close>

datatype Tile = Tile_null | Tile_of (zoom: int) (column: int) (row: int)

definition fromColumnRowZoom :: "int \<Rightarrow> int \<Rightarrow> int \<Rightarrow> Tile" where
  "fromColumnRowZoom col rowv zoomv = Tile_of zoomv col rowv"

text \<open>\<^verbatim>\<open>static_cast<unsigned int>(x)\<close> of an \<^verbatim>\<open>int\<close>.\<close>

definition to_unsigned_int :: "int \<Rightarrow> nat" where
  "to_unsigned_int x = nat (x mod 2 ^ 32)"

text \<open>
  Modelled from the spec: \<^verbatim>\<open>Format::unsignedIntegerReverse(d, end)\<close>
  (\<^verbatim>\<open>clarisma/util/Format.h\<close> is not among the source files). The spec has the numbers of
  a tile string in ``unsigned decimal''; by its name and its use the function writes the
  decimal digits of \<open>d\<close> backwards, the last digit just before \<^verbatim>\<open>end\<close>, and returns
  the address of the first digit. The second argument here is the text that starts at
  \<^verbatim>\<open>end\<close>, the result the text that starts at the returned address.
\<close>

function unsignedIntegerReverse :: "nat \<Rightarrow> string \<Rightarrow> string" where
  "unsignedIntegerReverse d text =
     (if d div 10 = 0 then char_of (48 + d mod 10) # text
      else unsignedIntegerReverse (d div 10) (char_of (48 + d mod 10) # text))"
  by pat_completeness auto
termination
  by (relation "measure fst") auto

declare unsignedIntegerReverse.simps [simp del]

text \<open>
  \<^verbatim>\<open>
  char* Tile::formatReverse(char* end) const
  {
      end = Format::unsignedIntegerReverse(static_cast<unsigned int>(row()), end) - 1;
      *end = '/';
      end = Format::unsignedIntegerReverse(static_cast<unsigned int>(column()), end) - 1;
      *end = '/';
      return Format::unsignedIntegerReverse(static_cast<unsigned int>(zoom()), end);
  }
  \<close>
  As above, the second argument is the text that starts at \<^verbatim>\<open>end\<close> and the result the
  text that starts at the returned address.
\<close>

definition formatReverse :: "Tile \<Rightarrow> string \<Rightarrow> string" where
  "formatReverse t text =
     (let end1 = CHR ''/'' # unsignedIntegerReverse (to_unsigned_int (row t)) text;
          end2 = CHR ''/'' # unsignedIntegerReverse (to_unsigned_int (column t)) end1
      in unsignedIntegerReverse (to_unsigned_int (zoom t)) end2)"

text \<open>
  \<^verbatim>\<open>
  void Tile::write(BufferWriter& out) const
  {
      char buf[32];
      char* end = buf + sizeof(buf);
      char* start = formatReverse(end);
      out.writeBytes(start, end - start);
  }
  \<close>
  The bytes written to \<^verbatim>\<open>out\<close>: the string form of the tile.
\<close>

definition Tile_write :: "Tile \<Rightarrow> string" where
  "Tile_write t = formatReverse t []"

text \<open>
  \<^verbatim>\<open>
  Tile Tile::fromString(const char* s)
  {
      char* p;
      long zoom = strtol(s, &p, 10);
      if (zoom < 0 || zoom > 12) return Tile();
      if (*p != '/') return Tile();
      long col = strtol(p+1, &p, 10);
      if (*p != '/') return Tile();
      long row = strtol(p+1, &p, 10);
      if(*p != 0) return Tile();
      return fromColumnRowZoom(col, row, zoom);
  }
  \<close>
  The locals \<^verbatim>\<open>zoom\<close> and \<^verbatim>\<open>row\<close> are \<open>zoomv\<close> and \<open>rowv\<close> here. The three
  \<^verbatim>\<open>long\<close> values are passed to \<open>fromColumnRowZoom\<close> as they are: a conversion to
  narrower parameter types would be part of the declaration that is not at hand, and it
  leaves every value between \<open>- 2 ^ 31\<close> and \<open>2 ^ 31 - 1\<close> unchanged.
\<close>

definition fromString :: "string \<Rightarrow> Tile" where
  "fromString s =
     (case strtol s of (zoomv, p) \<Rightarrow>
        if zoomv < 0 \<or> zoomv > 12 then Tile_null
        else if deref p \<noteq> CHR ''/'' then Tile_null
        else case strtol (tl p) of (col, p) \<Rightarrow>
          if deref p \<noteq> CHR ''/'' then Tile_null
          else case strtol (tl p) of (rowv, p) \<Rightarrow>
            if deref p \<noteq> NUL then Tile_null
            else fromColumnRowZoom col rowv zoomv)"

text \<open>
  The spec's tile string form, for comparison with what \<open>fromString\<close> accepts:
  ``\<^verbatim>\<open>"<zoom>/<column>/<row>"\<close>, zoom in [0,12], zoom/column/row are unsigned decimal, no
  whitespace, no trailing characters''.
\<close>

definition spec_tile_string :: "string \<Rightarrow> bool" where
  "spec_tile_string s \<longleftrightarrow>
     (let z = takeWhile isdigit s; r1 = dropWhile isdigit s;
          c = takeWhile isdigit (tl r1); r2 = dropWhile isdigit (tl r1);
          r = tl r2
      in z \<noteq> [] \<and> decimal_value z \<le> 12
         \<and> r1 \<noteq> [] \<and> hd r1 = CHR ''/'' \<and> c \<noteq> []
         \<and> r2 \<noteq> [] \<and> hd r2 = CHR ''/'' \<and> r \<noteq> [] \<and> list_all isdigit r)"

text \<open>
  What \<^verbatim>\<open>strtol\<close> reads as a whole field: nothing at all, or white space, an
  optional sign and at least one decimal digit.
\<close>

definition strtol_field :: "string \<Rightarrow> bool" where
  "strtol_field f \<longleftrightarrow>
     f = [] \<or>
     (let s1 = dropWhile isspace f;
          s2 = (if deref s1 = CHR ''-'' \<or> deref s1 = CHR ''+'' then tl s1 else s1)
      in s2 \<noteq> [] \<and> list_all isdigit s2)"

section \<open>Selector and its tag clauses\<close>

text \<open>
  A \<^verbatim>\<open>TagClause\<close> (\<^verbatim>\<open>TagClause.h\<close> is not among the source files), with the members
  that \<^verbatim>\<open>Selector::addClause\<close> reads: \<^verbatim>\<open>keyOp\<close>, \<^verbatim>\<open>flags\<close> and \<^verbatim>\<open>category\<close>.
  The member \<^verbatim>\<open>next\<close> is the link of the clause list, which is written here as the
  list of the clauses from \<^verbatim>\<open>firstClause\<close> on; \<open>content\<close> stands for whatever else a
  clause holds (its value operations).
\<close>

record ('k, 'v) TagClause =
  keyOp :: 'k
  flags :: "32 word"
  category :: int
  content :: 'v

text \<open>
  Modelled from the spec: \<^verbatim>\<open>keyOp.compareTo\<close> (\<^verbatim>\<open>OpNode\<close> is not among the source
  files). The spec speaks of ``ascending \<open>keyOp\<close> order'' and of ``equal keys'', so the
  key operations are taken to be linearly ordered and \<open>compareTo\<close> to be the three-way
  comparison of that order: negative, zero or positive.
\<close>

definition compareTo :: "'k::linorder \<Rightarrow> 'k \<Rightarrow> int" where
  "compareTo a b = (if a < b then - 1 else if a = b then 0 else 1)"

text \<open>
  \<^verbatim>\<open>
  Selector::Selector(FeatureTypes types) :
      next(nullptr), acceptedTypes(types), indexBits(0),
      firstClause(nullptr), falseOp(Opcode::RETURN)
  \<close>
  \<^verbatim>\<open>next\<close> (the following selector of the query) and \<^verbatim>\<open>falseOp\<close> are not touched
  by \<^verbatim>\<open>addClause\<close> and are left out.
\<close>

record ('k, 'v) Selector =
  acceptedTypes :: "32 word"
  indexBits :: "32 word"
  firstClause :: "('k, 'v) TagClause list"

definition Selector :: "32 word \<Rightarrow> ('k, 'v) Selector" where
  "Selector types = \<lparr>acceptedTypes = types, indexBits = 0, firstClause = []\<rparr>"

text \<open>
  The loop of \<^verbatim>\<open>addClause\<close>, on the list that starts at \<^verbatim>\<open>*pNext\<close>:
  \<^verbatim>\<open>
      while ((current = *pNext) != nullptr)
      {
          int comp = current->keyOp.compareTo(&clause->keyOp);
          if (comp < 0) { pNext = &current->next; continue; }
          if (comp == 0) { current->absorb(clause); return; }
          break;
      }
      ...
      clause->next = current;
      *pNext = clause;
  \<close>
  The result is the list after the call, and whether the loop was left towards the
  code after it (\<open>True\<close>: the clause is linked in as a new node) or the function
  returned from inside the loop (\<open>False\<close>: the clause was absorbed).
  \<^verbatim>\<open>TagClause::absorb\<close> is not among the source files; it is the parameter
  \<open>absorb\<close>, which gives the clause \<^verbatim>\<open>current\<close> as it is after
  \<^verbatim>\<open>current->absorb(clause)\<close>.
\<close>

fun addClause_loop ::
  "(('k::linorder, 'v) TagClause \<Rightarrow> ('k, 'v) TagClause \<Rightarrow> ('k, 'v) TagClause)
     \<Rightarrow> ('k, 'v) TagClause \<Rightarrow> ('k, 'v) TagClause list
     \<Rightarrow> ('k, 'v) TagClause list \<times> bool" where
  "addClause_loop absorb clause [] = ([clause], True)"
| "addClause_loop absorb clause (current # rest) =
     (let comp = compareTo (keyOp current) (keyOp clause)
      in if comp < 0 then
           (let (rest', linked) = addClause_loop absorb clause rest
            in (current # rest', linked))
         else if comp = 0 then (absorb current clause # rest, False)
         else (clause # current # rest, True))"

text \<open>
  \<^verbatim>\<open>
  void Selector::addClause(TagClause* clause)
  {
      TagClause** pNext = &firstClause;
      TagClause* current;
      while (...) { ... }
      if (clause->flags & TagClause::KEY_REQUIRED)
      {
          indexBits |= IndexBits::fromCategory(clause->category);
      }
      clause->next = current;
      *pNext = clause;
  }
  \<close>
  The constant \<^verbatim>\<open>TagClause::KEY_REQUIRED\<close> and the function
  \<^verbatim>\<open>IndexBits::fromCategory\<close> are not among the source files; they are the parameters
  \<open>KEY_REQUIRED\<close> and \<open>fromCategory\<close>.
\<close>

definition addClause ::
  "32 word \<Rightarrow> (int \<Rightarrow> 32 word)
     \<Rightarrow> (('k::linorder, 'v) TagClause \<Rightarrow> ('k, 'v) TagClause \<Rightarrow> ('k, 'v) TagClause)
     \<Rightarrow> ('k, 'v) Selector \<Rightarrow> ('k, 'v) TagClause \<Rightarrow> ('k, 'v) Selector" where
  "addClause KEY_REQUIRED fromCategory absorb sel clause =
     (case addClause_loop absorb clause (firstClause sel) of
        (clauses, False) \<Rightarrow> sel\<lparr>firstClause := clauses\<rparr>
      | (clauses, True) \<Rightarrow>
          sel\<lparr>indexBits :=
                (if flags clause AND KEY_REQUIRED \<noteq> 0
                 then indexBits sel OR fromCategory (category clause)
                 else indexBits sel),
              firstClause := clauses\<rparr>)"

text \<open>A sequence of \<^verbatim>\<open>addClause\<close> calls, one after the other.\<close>

definition addClauses ::
  "32 word \<Rightarrow> (int \<Rightarrow> 32 word)
     \<Rightarrow> (('k::linorder, 'v) TagClause \<Rightarrow> ('k, 'v) TagClause \<Rightarrow> ('k, 'v) TagClause)
     \<Rightarrow> ('k, 'v) Selector \<Rightarrow> ('k, 'v) TagClause list \<Rightarrow> ('k, 'v) Selector" where
  "addClauses KEY_REQUIRED fromCategory absorb sel clauses =
     foldl (addClause KEY_REQUIRED fromCategory absorb) sel clauses"

text \<open>
  Sample values of the three parameters, for running \<open>addClause\<close> on concrete
  clauses: a flag bit, one index bit per category, and an \<open>absorb\<close> that merges the
  flags of the absorbed clause into the clause that stays.
\<close>

definition sample_KEY_REQUIRED :: "32 word" where
  "sample_KEY_REQUIRED = 1"

definition sample_fromCategory :: "int \<Rightarrow> 32 word" where
  "sample_fromCategory c = push_bit (nat c) 1"

definition sample_absorb ::
  "(nat, unit) TagClause \<Rightarrow> (nat, unit) TagClause \<Rightarrow> (nat, unit) TagClause" where
  "sample_absorb current clause = current\<lparr>flags := flags current OR flags clause\<rparr>"

definition sample_clause :: "nat \<Rightarrow> 32 word \<Rightarrow> int \<Rightarrow> (nat, unit) TagClause" where
  "sample_clause k fl cat = \<lparr>keyOp = k, flags = fl, category = cat, content = ()\<rparr>"

section \<open>LengthUnit: the conversion tables\<close>

text \<open>
  The tables are arrays of \<^verbatim>\<open>double\<close>; their entries are decimal literals and
  quotients of literals, evaluated in IEEE 754 binary64 arithmetic. A finite
  \<^verbatim>\<open>double\<close> is a real number; a literal and the result of a floating-point operation
  are the exact value rounded to the nearest \<^verbatim>\<open>double\<close>, ties to the even significand.

  \<open>binary64 x\<close> is that rounding for every \<open>x\<close> whose magnitude is below the overflow
  threshold (all values here are between \<open>1/2048\<close> and \<open>2048\<close>): the doubles are
  multiples of \<open>2 ^ - 1074\<close>, so \<open>x\<close> is scaled by \<open>2 ^ 1074\<close>; a scaled value of
  \<open>L\<close> bits has 53 significant bits when the last \<open>L - 53\<close> bits are rounded away, and
  a scaled value of up to 53 bits (a subnormal) is rounded to an integer.
\<close>

definition round_half_even :: "real \<Rightarrow> int" where
  "round_half_even y =
     (let f = \<lfloor>y\<rfloor>; d = y - of_int f
      in if d < 1 / 2 then f
         else if 1 / 2 < d then f + 1
         else if even f then f else f + 1)"

definition smallest_exponent :: nat where
  "smallest_exponent = 1074"

definition binary64 :: "real \<Rightarrow> real" where
  "binary64 x =
     (let y = \<bar>x\<bar> * 2 ^ smallest_exponent;
          L = bitlen \<lfloor>y\<rfloor>;
          u = (if L \<le> 53 then 1 else 2 ^ nat (L - 53))
      in sgn x * (of_int (round_half_even (y / u)) * u) / 2 ^ smallest_exponent)"

text \<open>
  \<^verbatim>\<open>
  const double LengthUnit::METERS_TO_UNIT[]
  {
      1.0,        // meters
      0.001,      // km
      3.28084,    // feet
      1.093613,   // yards
      0.0006213711922373339,  // miles
  };
  \<close>
\<close>

definition METERS_TO_UNIT :: "real list" where
  "METERS_TO_UNIT =
     [binary64 1,
      binary64 (1 / 1000),
      binary64 (328084 / 100000),
      binary64 (1093613 / 1000000),
      binary64 (6213711922373339 / 10000000000000000000)]"

text \<open>
  \<^verbatim>\<open>
  const double LengthUnit::UNITS_TO_METERS[] =
  {
      1.0,            // meters
      1.0 / 0.001,    // km
      1.0 / 3.28084,  // feet
      1.0 / 1.093613, // yards
      1.0 / 0.0006213711922373339,   // miles
  };
  \<close>
  A quotient is the exact quotient of its two \<^verbatim>\<open>double\<close> operands, rounded.
\<close>

definition UNITS_TO_METERS :: "real list" where
  "UNITS_TO_METERS =
     [binary64 1,
      binary64 (binary64 1 / binary64 (1 / 1000)),
      binary64 (binary64 1 / binary64 (328084 / 100000)),
      binary64 (binary64 1 / binary64 (1093613 / 1000000)),
      binary64 (binary64 1 / binary64 (6213711922373339 / 10000000000000000000))]"

section \<open>TaskQueue\<close>

text \<open>
  \<^verbatim>\<open>
  std::vector<Task> queue_;
  int front_; int rear_; int size_; int count_;
  bool running_;
  \<close>
  The fields carry the suffix \<open>_q\<close> in place of the trailing underscore. The four
  \<^verbatim>\<open>int\<close>s are indices and counts between 0 and \<^verbatim>\<open>size_\<close>; they are natural numbers
  here. The mutex and the two condition variables do not appear: every operation below
  is the part of a member function that runs while it holds \<^verbatim>\<open>mutex_\<close>, so the
  operations of all threads happen one after the other, in the order in which the
  mutex is taken.
\<close>

record 'task TaskQueue =
  queue_q :: "'task list"
  front_q :: nat
  rear_q :: nat
  size_q :: nat
  count_q :: nat
  running_q :: bool

text \<open>
  \<^verbatim>\<open>
  explicit TaskQueue(int size) :
      size_(size), count_(0), front_(0), rear_(0), running_(true)
  {
      assert(size > 0);
      queue_.resize(size);
  }
  \<close>
  \<open>dflt\<close> is the default-constructed \<open>Task\<close> that \<^verbatim>\<open>resize\<close> fills the vector with.
\<close>

definition TaskQueue :: "'task \<Rightarrow> nat \<Rightarrow> 'task TaskQueue" where
  "TaskQueue dflt n =
     \<lparr>queue_q = replicate n dflt, front_q = 0, rear_q = 0, size_q = n, count_q = 0,
      running_q = True\<rparr>"

text \<open>
  The three statements that \<^verbatim>\<open>post\<close> and \<^verbatim>\<open>tryPost\<close> share:
  \<^verbatim>\<open>
      queue_[rear_] = std::move(task);
      rear_ = (rear_ + 1) % size_;
      count_++;
  \<close>
\<close>

definition enqueue :: "'task TaskQueue \<Rightarrow> 'task \<Rightarrow> 'task TaskQueue" where
  "enqueue q task =
     q\<lparr>queue_q := (queue_q q)[rear_q q := task],
       rear_q := (rear_q q + 1) mod size_q q,
       count_q := count_q q + 1\<rparr>"

text \<open>
  \<^verbatim>\<open>
  void post(Task&& task)
  {
      std::unique_lock<std::mutex> lock(mutex_);
      if (count_ == size_)
      {
          notFull_.wait(lock, [this] { return count_ < size_; });
      }
      ...
  }
  \<close>
  On a full queue the caller waits until another thread has taken a task: \<open>None\<close>
  says that the call cannot go on in this state.
\<close>

definition post :: "'task TaskQueue \<Rightarrow> 'task \<Rightarrow> 'task TaskQueue option" where
  "post q task = (if count_q q = size_q q then None else Some (enqueue q task))"

text \<open>
  \<^verbatim>\<open>
  bool tryPost(Task&& task)
  {
      std::unique_lock<std::mutex> lock(mutex_);
      if (count_ == size_) return false;
      ...
      return true;
  }
  \<close>
\<close>

definition tryPost :: "'task TaskQueue \<Rightarrow> 'task \<Rightarrow> bool \<times> 'task TaskQueue" where
  "tryPost q task = (if count_q q = size_q q then (False, q) else (True, enqueue q task))"

text \<open>\<^verbatim>\<open>void shutdown() { ...; running_ = false; notEmpty_.notify_all(); }\<close>\<close>

definition shutdown :: "'task TaskQueue \<Rightarrow> 'task TaskQueue" where
  "shutdown q = q\<lparr>running_q := False\<rparr>"

text \<open>
  One round of the outer loop of \<^verbatim>\<open>process\<close>, up to the call of
  \<^verbatim>\<open>ctx->processTask(task)\<close>:
  \<^verbatim>\<open>
      for (;;)
      {
          if (!running_) return;
          if (count_ > 0) break;
          notEmpty_.wait(lock);
      }
      task = std::move(queue_[front_]);
      front_ = (front_ + 1) % size_;
      count_--;
  \<close>
  \<open>Finished\<close>: \<^verbatim>\<open>process\<close> returns. \<open>Waiting\<close>: the caller waits for a task.
  \<open>Took task\<close>: the task that is handed to \<^verbatim>\<open>processTask\<close>. The slot that was
  moved from is outside the tasks in use from now on, and what it holds is not read
  again before it is overwritten.
\<close>

datatype 'task taken = Finished | Waiting | Took 'task

definition process_round :: "'task TaskQueue \<Rightarrow> 'task taken \<times> 'task TaskQueue" where
  "process_round q =
     (if \<not> running_q q then (Finished, q)
      else if count_q q > 0 then
        (Took (queue_q q ! front_q q),
         q\<lparr>front_q := (front_q q + 1) mod size_q q, count_q := count_q q - 1\<rparr>)
      else (Waiting, q))"

text \<open>
  A run of the queue: the calls of the producers and consumers in the order in which
  they take the mutex. With the queue it keeps the tasks that were accepted, in the
  order of their submission, and the tasks that were handed to \<^verbatim>\<open>processTask\<close>, in
  the order in which they were taken. A call that has to wait is not part of a run at
  that place (the run is \<open>None\<close>); it is part of it where it goes on.
\<close>

datatype 'task call = Post 'task | TryPost 'task | Process | Shutdown

fun run ::
  "'task call list \<Rightarrow> 'task TaskQueue \<times> 'task list \<times> 'task list
     \<Rightarrow> ('task TaskQueue \<times> 'task list \<times> 'task list) option" where
  "run [] s = Some s"
| "run (Post task # calls) (q, submitted, processed) =
     (case post q task of
        None \<Rightarrow> None
      | Some q' \<Rightarrow> run calls (q', submitted @ [task], processed))"
| "run (TryPost task # calls) (q, submitted, processed) =
     (case tryPost q task of
        (True, q') \<Rightarrow> run calls (q', submitted @ [task], processed)
      | (False, q') \<Rightarrow> run calls (q', submitted, processed))"
| "run (Process # calls) (q, submitted, processed) =
     (case process_round q of
        (Took task, q') \<Rightarrow> run calls (q', submitted, processed @ [task])
      | (Finished, q') \<Rightarrow> run calls (q', submitted, processed)
      | (Waiting, q') \<Rightarrow> None)"
| "run (Shutdown # calls) (q, submitted, processed) =
     run calls (shutdown q, submitted, processed)"

text \<open>The tasks in the queue, from \<^verbatim>\<open>front_\<close> on around the ring.\<close>

definition waiting_tasks :: "'task TaskQueue \<Rightarrow> 'task list" where
  "waiting_tasks q =
     map (\<lambda>i. queue_q q ! ((front_q q + i) mod size_q q)) [0..<count_q q]"

definition ring :: "'task TaskQueue \<Rightarrow> bool" where
  "ring q \<longleftrightarrow>
     0 < size_q q \<and> length (queue_q q) = size_q q \<and> front_q q < size_q q
     \<and> count_q q \<le> size_q q \<and> rear_q q = (front_q q + count_q q) mod size_q q"

section \<open>BitIterator\<close>

text \<open>
  The ways an operation of the model can leave defined behaviour.
  \<open>ShiftCountOutOfRange\<close>: the right operand of a C++ shift is not less than the
  width of the (promoted) left operand, which the language leaves undefined.
\<close>

datatype error = ShiftCountOutOfRange

text \<open>
  Modelled from the spec: \<^verbatim>\<open>Bits::countTrailingZerosInNonZero\<close>
  (\<^verbatim>\<open>clarisma/util/Bits.h\<close> is not among the source files). By its name and by the
  documentation of \<^verbatim>\<open>BitIterator::next\<close> (``the number of the next non-zero bit'') it
  is the number of zero bits below the lowest set bit of a non-zero value.
\<close>

primrec ctz_upto :: "nat \<Rightarrow> 'a::len word \<Rightarrow> nat" where
  "ctz_upto 0 w = 0"
| "ctz_upto (Suc k) w = (if bit w 0 then 0 else Suc (ctz_upto k (drop_bit 1 w)))"

definition countTrailingZerosInNonZero :: "'a::len word \<Rightarrow> nat" where
  "countTrailingZerosInNonZero w = ctz_upto LENGTH('a) w"

text \<open>
  \<^verbatim>\<open>template<typename T> class BitIterator { T bits_; int pos_; }\<close> for an unsigned
  integer type \<open>T\<close> of \<open>LENGTH('a)\<close> bits (the fields are written without
  the trailing underscore here). The constructor stores the bits and sets the position
  to 0.
\<close>

record (overloaded) ('a::len) BitIterator =
  bits :: "'a word"
  pos :: int

definition BitIterator :: "'a::len word \<Rightarrow> 'a BitIterator" where
  "BitIterator b = \<lparr>bits = b, pos = 0\<rparr>"

text \<open>
  In \<^verbatim>\<open>bits_ >>= n + 1\<close> the left operand is promoted: a \<open>T\<close> narrower than
  \<^verbatim>\<open>int\<close> becomes a 32-bit \<^verbatim>\<open>int\<close>, a wider one keeps its width.
\<close>

definition promoted_width :: "'a::len word \<Rightarrow> nat" where
  "promoted_width w = max 32 LENGTH('a)"

text \<open>
  \<^verbatim>\<open>
  int next()
  {
      if (bits_ == 0) return -1;
      int n = Bits::countTrailingZerosInNonZero(bits_);
      int res = pos_ + n;
      bits_ >>= n + 1;
      pos_ += n + 1;
      return res;
  }
  \<close>
  The result is the returned number and the iterator after the call.
\<close>

definition BitIterator_next :: "'a::len BitIterator \<Rightarrow> error + (int \<times> 'a BitIterator)" where
  "BitIterator_next it =
     (if bits it = 0 then Inr (- 1, it)
      else
        let n = countTrailingZerosInNonZero (bits it);
            res = pos it + int n
        in if promoted_width (bits it) \<le> n + 1 then Inl ShiftCountOutOfRange
           else Inr (res, it\<lparr>bits := drop_bit (n + 1) (bits it),
                               pos := pos it + int (n + 1)\<rparr>))"

text \<open>
  Calling \<^verbatim>\<open>next()\<close> \<open>k\<close> times in a row and collecting the returned numbers; the
  calls stop where one leaves defined behaviour.
\<close>

fun BitIterator_calls :: "nat \<Rightarrow> 'a::len BitIterator \<Rightarrow> error + (int list \<times> 'a BitIterator)" where
  "BitIterator_calls 0 it = Inr ([], it)"
| "BitIterator_calls (Suc k) it =
     (case BitIterator_next it of
        Inl e \<Rightarrow> Inl e
      | Inr (r, it') \<Rightarrow>
          (case BitIterator_calls k it' of
             Inl e \<Rightarrow> Inl e
           | Inr (rs, it'') \<Rightarrow> Inr (r # rs, it'')))"

text \<open>
  What the documentation of \<^verbatim>\<open>next()\<close> promises for \<open>k\<close> calls in a row, given the
  positions of the set bits in increasing order: the positions one by one, then
  \<open>-1\<close> for every further call.
\<close>

fun promised_results :: "nat \<Rightarrow> nat list \<Rightarrow> int list" where
  "promised_results 0 ps = []"
| "promised_results (Suc k) [] = - 1 # promised_results k []"
| "promised_results (Suc k) (p # ps) = int p # promised_results k ps"

section \<open>Deduplicator\<close>

text \<open>
  \<^verbatim>\<open>template<typename Derived, typename T> class Deduplicator : public LookupBase<Derived, T>\<close>.
  The table is an array of \<^verbatim>\<open>tableSize_\<close> slots, each the head of a chain of items
  linked through \<^verbatim>\<open>*Derived::next(item)\<close>; a chain is written here as the list of its
  items from the head on, and the table as the list of its chains, so that
  \<^verbatim>\<open>tableSize_\<close> is the length of the table. An item of type \<open>'a\<close> stands for the
  object a \<^verbatim>\<open>T*\<close> points to: two items are the same pointer when they are equal in
  HOL, while \<^verbatim>\<open>*item == *existing\<close> is the parameter \<open>eq\<close> and
  \<^verbatim>\<open>Derived::hash\<close> the parameter \<open>hash\<close>. \<^verbatim>\<open>count_\<close> is a \<^verbatim>\<open>size_t\<close>.
\<close>

record 'a Deduplicator =
  table :: "'a list list"
  count :: "64 word"

definition tableSize :: "'a Deduplicator \<Rightarrow> nat" where
  "tableSize d = length (table d)"

text \<open>
  \<^verbatim>\<open>Deduplicator(T** table, int tableSize) : count_(0) { init(table, tableSize); }\<close>
  Modelled from the spec: \<^verbatim>\<open>LookupBase::init\<close> (\<^verbatim>\<open>clarisma/data/LookupBase.h\<close> is
  not among the source files) is taken to leave every slot empty.
\<close>

definition Deduplicator_init :: "nat \<Rightarrow> 'a Deduplicator" where
  "Deduplicator_init n = \<lparr>table = replicate n [], count = 0\<rparr>"

datatype lookup_error = ModuloByZero

text \<open>
  \<^verbatim>\<open>
  void insertUnique(T* item)
  {
      size_t slot = Derived::hash(item) % this->tableSize_;
      *Derived::next(item) = this->table_[slot];
      this->table_[slot] = item;
      count_++;
  }
  \<close>
\<close>

definition insertUnique ::
  "('a \<Rightarrow> 64 word) \<Rightarrow> 'a Deduplicator \<Rightarrow> 'a \<Rightarrow> lookup_error + 'a Deduplicator" where
  "insertUnique hash d item =
     (if tableSize d = 0 then Inl ModuloByZero
      else
        let slot = unat (hash item) mod tableSize d
        in Inr (d\<lparr>table := (table d)[slot := item # table d ! slot],
                  count := count d + 1\<rparr>))"

text \<open>
  The loop of \<^verbatim>\<open>insert\<close> over one chain:
  \<^verbatim>\<open>
      while (existing)
      {
          if (*item == *existing) return existing;
          existing = *Derived::next(existing);
      }
  \<close>
\<close>

fun find_existing :: "('a \<Rightarrow> 'a \<Rightarrow> bool) \<Rightarrow> 'a \<Rightarrow> 'a list \<Rightarrow> 'a option" where
  "find_existing eq item [] = None"
| "find_existing eq item (existing # chain) =
     (if eq item existing then Some existing else find_existing eq item chain)"

text \<open>
  \<^verbatim>\<open>
  T* insert(T* item)
  {
      size_t slot = Derived::hash(item) % this->tableSize_;
      T* existing = this->table_[slot];
      while (existing) { ... }
      *Derived::next(item) = this->table_[slot];
      this->table_[slot] = item;
      count_++;
      return item;
  }
  \<close>
  The result is the returned pointer and the table after the call.
\<close>

definition insert_item ::
  "('a \<Rightarrow> 64 word) \<Rightarrow> ('a \<Rightarrow> 'a \<Rightarrow> bool) \<Rightarrow> 'a Deduplicator \<Rightarrow> 'a
     \<Rightarrow> lookup_error + ('a \<times> 'a Deduplicator)" where
  "insert_item hash eq d item =
     (if tableSize d = 0 then Inl ModuloByZero
      else
        let slot = unat (hash item) mod tableSize d
        in case find_existing eq item (table d ! slot) of
             Some existing \<Rightarrow> Inr (existing, d)
           | None \<Rightarrow>
               Inr (item, d\<lparr>table := (table d)[slot := item # table d ! slot],
                              count := count d + 1\<rparr>))"

text \<open>The items of a table, and the tables that the two insert operations build: every
  item sits in the chain of its hash.\<close>

definition items :: "'a Deduplicator \<Rightarrow> 'a set" where
  "items d = (\<Union>chain \<in> set (table d). set chain)"

definition chained_by_hash :: "('a \<Rightarrow> 64 word) \<Rightarrow> 'a Deduplicator \<Rightarrow> bool" where
  "chained_by_hash hash d \<longleftrightarrow>
     0 < tableSize d \<and>
     (\<forall>i < tableSize d. \<forall>x \<in> set (table d ! i). unat (hash x) mod tableSize d = i)"

section \<open>BlobStore: pages and segments\<close>

text \<open>
  \<^verbatim>\<open>using PageNum = uint32_t;\<close> and \<^verbatim>\<open>uint32_t pageSizeShift_ = 12;\<close>
  (the default 4KB page).
\<close>

type_synonym PageNum = "32 word"

definition BLOB_HEADER_SIZE :: nat where
  "BLOB_HEADER_SIZE = 8"

definition default_pageSizeShift :: nat where
  "default_pageSizeShift = 12"

text \<open>
  \<^verbatim>\<open>return (page & ((0x3fff'ffff) >> store()->pageSizeShift_)) == 0;\<close>
  The literal is an \<^verbatim>\<open>int\<close>; shifting it right by less than 32 places is the
  logical shift of a non-negative value, and the conversion to \<^verbatim>\<open>uint32_t\<close>
  for the bitwise and keeps it.
\<close>

definition isFirstPageOfSegment :: "nat \<Rightarrow> PageNum \<Rightarrow> bool" where
  "isFirstPageOfSegment pageSizeShift page =
     (page AND drop_bit pageSizeShift (0x3fffffff :: 32 word) = 0)"

text \<open>
  The byte offset of a page, as \<^verbatim>\<open>getBlobBlock\<close> computes it:
  \<^verbatim>\<open>static_cast<uint64_t>(page) << store()->pageSizeShift_\<close>.
\<close>

definition pageOffset :: "nat \<Rightarrow> PageNum \<Rightarrow> 64 word" where
  "pageOffset pageSizeShift page = push_bit pageSizeShift (ucast page :: 64 word)"

text \<open>
  Modelled from the spec: the body of \<^verbatim>\<open>BlobStore::pagesForPayloadSize\<close>
  (only its declaration, \<^verbatim>\<open>uint32_t pagesForPayloadSize(uint32_t payloadSize) const\<close>,
  is in the header). The spec's allocation algorithm: ``Compute
  \<open>pages = ceil((payloadSize + 8) / pageSize)\<close>'', where 8 is
  \<^verbatim>\<open>BLOB_HEADER_SIZE\<close> and the page size is \<open>2 ^ pageSizeShift\<close>.
\<close>

definition pagesForPayloadSize :: "nat \<Rightarrow> nat \<Rightarrow> nat" where
  "pagesForPayloadSize pageSizeShift payloadSize =
     nat \<lceil>real (payloadSize + BLOB_HEADER_SIZE) / real (2 ^ pageSizeShift)\<rceil>"

chapter \<open>Properties\<close>

section \<open>Tile: string round trip\<close>

lemma isdigit_char_of: "k < 10 \<Longrightarrow> isdigit (char_of (48 + k :: nat))"
  by (simp add: isdigit_def)

lemma digit_value_char_of: "k < 10 \<Longrightarrow> digit_value (char_of (48 + k :: nat)) = k"
  by (simp add: digit_value_def)

lemma decimal_value_snoc:
  "decimal_value (ds @ [c]) = 10 * decimal_value ds + digit_value c"
  by (simp add: decimal_value_def)

lemma unsignedIntegerReverse_digits:
  "\<exists>ds. unsignedIntegerReverse d buf = ds @ buf \<and> ds \<noteq> [] \<and> list_all isdigit ds
        \<and> decimal_value ds = d"
proof (induction d buf rule: unsignedIntegerReverse.induct)
  case (1 d buf)
  let ?c = "char_of (48 + d mod 10) :: char"
  have c: "isdigit ?c" "digit_value ?c = d mod 10"
    by (simp_all add: isdigit_char_of digit_value_char_of)
  show ?case
  proof (cases "d div 10 = 0")
    case True
    then have "unsignedIntegerReverse d buf = [?c] @ buf"
      by (simp add: unsignedIntegerReverse.simps)
    moreover have "decimal_value [?c] = d"
      using True c(2) by (simp add: decimal_value_def)
    ultimately show ?thesis using c(1) by (intro exI [of _ "[?c]"]) simp
  next
    case False
    from "1.IH" [OF False] obtain ds where ds:
      "unsignedIntegerReverse (d div 10) (?c # buf) = ds @ ?c # buf"
      "ds \<noteq> []" "list_all isdigit ds" "decimal_value ds = d div 10"
      by blast
    have "unsignedIntegerReverse d buf = (ds @ [?c]) @ buf"
      using False ds(1) by (simp add: unsignedIntegerReverse.simps [of d])
    moreover have "decimal_value (ds @ [?c]) = d"
      using ds(4) c(2) by (simp add: decimal_value_snoc)
    moreover have "list_all isdigit (ds @ [?c])" using ds(3) c(1) by simp
    ultimately show ?thesis by (intro exI [of _ "ds @ [?c]"]) simp
  qed
qed

lemma isdigit_not_space_sign:
  "isdigit c \<Longrightarrow> \<not> isspace c \<and> c \<noteq> CHR ''-'' \<and> c \<noteq> CHR ''+''"
  by (auto simp: isdigit_def isspace_def)

lemma not_isdigit_slash_NUL: "\<not> isdigit CHR ''/''" "\<not> isdigit NUL"
  by (simp_all add: isdigit_def NUL_def)

lemma takeWhile_digits:
  assumes "list_all isdigit ds" "\<not> isdigit (deref rest)"
  shows "takeWhile isdigit (ds @ rest) = ds \<and> dropWhile isdigit (ds @ rest) = rest"
proof -
  have r: "takeWhile isdigit rest = [] \<and> dropWhile isdigit rest = rest"
    using assms(2) by (cases rest) (simp_all add: deref_def)
  have "\<forall>x \<in> set ds. isdigit x" using assms(1) by (simp add: list_all_iff)
  then show ?thesis using r by (simp add: takeWhile_append2 dropWhile_append2)
qed

lemma strtol_digits:
  assumes "ds \<noteq> []" "list_all isdigit ds" "\<not> isdigit (deref rest)"
    and "int (decimal_value ds) \<le> LONG_MAX"
  shows "strtol (ds @ rest) = (int (decimal_value ds), rest)"
proof -
  obtain c cs where ds: "ds = c # cs" using assms(1) by (cases ds) auto
  have c: "isdigit c" using assms(2) ds by simp
  note nc = isdigit_not_space_sign [OF c]
  have s1: "dropWhile isspace (ds @ rest) = ds @ rest" using ds nc by simp
  have d: "deref (ds @ rest) = c" using ds by (simp add: deref_def)
  note tw = takeWhile_digits [OF assms(2,3)]
  show ?thesis
    unfolding strtol_def s1 d Let_def using nc tw assms(1,4) by simp
qed

lemma digit_chars:
  "char_of (48::nat) = CHR ''0''" "char_of (49::nat) = CHR ''1''"
  "char_of (50::nat) = CHR ''2''" "char_of (51::nat) = CHR ''3''"
  "char_of (52::nat) = CHR ''4''" "char_of (53::nat) = CHR ''5''"
  "char_of (54::nat) = CHR ''6''" "char_of (55::nat) = CHR ''7''"
  "char_of (56::nat) = CHR ''8''" "char_of (57::nat) = CHR ''9''"
  by code_simp+

lemma to_unsigned_int_small: "0 \<le> x \<Longrightarrow> x < 2 ^ 32 \<Longrightarrow> to_unsigned_int x = nat x"
  by (simp add: to_unsigned_int_def)

lemma fromString_digits:
  assumes z: "zs \<noteq> []" "list_all isdigit zs" "decimal_value zs \<le> 12"
    and c: "cs \<noteq> []" "list_all isdigit cs" "int (decimal_value cs) \<le> LONG_MAX"
    and r: "rs \<noteq> []" "list_all isdigit rs" "int (decimal_value rs) \<le> LONG_MAX"
  shows "fromString (zs @ CHR ''/'' # cs @ CHR ''/'' # rs)
     = Tile_of (int (decimal_value zs)) (int (decimal_value cs)) (int (decimal_value rs))"
proof -
  have zl: "int (decimal_value zs) \<le> LONG_MAX" using z(3) by (simp add: LONG_MAX_def)
  have 1: "strtol (zs @ CHR ''/'' # cs @ CHR ''/'' # rs)
      = (int (decimal_value zs), CHR ''/'' # cs @ CHR ''/'' # rs)"
    by (rule strtol_digits [OF z(1,2) _ zl]) (simp add: deref_def not_isdigit_slash_NUL)
  have 2: "strtol (cs @ CHR ''/'' # rs) = (int (decimal_value cs), CHR ''/'' # rs)"
    by (rule strtol_digits [OF c(1,2) _ c(3)]) (simp add: deref_def not_isdigit_slash_NUL)
  have 3: "strtol (rs @ []) = (int (decimal_value rs), [])"
    by (rule strtol_digits [OF r(1,2) _ r(3)]) (simp add: deref_def not_isdigit_slash_NUL)
  show ?thesis
    using z(3) 3 by (simp add: fromString_def 1 2 deref_def fromColumnRowZoom_def)
qed

lemma Tile_write_digits:
  assumes "0 \<le> z" "z < 2 ^ 32" "0 \<le> c" "c < 2 ^ 32" "0 \<le> r" "r < 2 ^ 32"
  shows "\<exists>zs cs rs. Tile_write (Tile_of z c r) = zs @ CHR ''/'' # cs @ CHR ''/'' # rs
      \<and> zs \<noteq> [] \<and> list_all isdigit zs \<and> int (decimal_value zs) = z
      \<and> cs \<noteq> [] \<and> list_all isdigit cs \<and> int (decimal_value cs) = c
      \<and> rs \<noteq> [] \<and> list_all isdigit rs \<and> int (decimal_value rs) = r"
proof -
  obtain rs where rs: "unsignedIntegerReverse (nat r) [] = rs @ []"
      "rs \<noteq> []" "list_all isdigit rs" "decimal_value rs = nat r"
    using unsignedIntegerReverse_digits [of "nat r" "[]"] by blast
  obtain cs where cs: "unsignedIntegerReverse (nat c) (CHR ''/'' # rs) = cs @ CHR ''/'' # rs"
      "cs \<noteq> []" "list_all isdigit cs" "decimal_value cs = nat c"
    using unsignedIntegerReverse_digits [of "nat c" "CHR ''/'' # rs"] by blast
  obtain zs where zs: "unsignedIntegerReverse (nat z) (CHR ''/'' # cs @ CHR ''/'' # rs)
        = zs @ CHR ''/'' # cs @ CHR ''/'' # rs"
      "zs \<noteq> []" "list_all isdigit zs" "decimal_value zs = nat z"
    using unsignedIntegerReverse_digits [of "nat z" "CHR ''/'' # cs @ CHR ''/'' # rs"] by blast
  have "Tile_write (Tile_of z c r) = zs @ CHR ''/'' # cs @ CHR ''/'' # rs"
    using rs(1) cs(1) zs(1) assms
    by (simp add: Tile_write_def formatReverse_def to_unsigned_int_small)
  then show ?thesis
    using rs(2-4) cs(2-4) zs(2-4) assms(1,3,5) by (intro exI [of _ zs] exI [of _ cs] exI [of _ rs]) simp
qed

lemma spec_tile_string_digits:
  assumes "zs \<noteq> []" "list_all isdigit zs" "decimal_value zs \<le> 12"
    and "cs \<noteq> []" "list_all isdigit cs" and "rs \<noteq> []" "list_all isdigit rs"
  shows "spec_tile_string (zs @ CHR ''/'' # cs @ CHR ''/'' # rs)"
proof -
  have 1: "takeWhile isdigit (zs @ CHR ''/'' # cs @ CHR ''/'' # rs) = zs
      \<and> dropWhile isdigit (zs @ CHR ''/'' # cs @ CHR ''/'' # rs) = CHR ''/'' # cs @ CHR ''/'' # rs"
    by (rule takeWhile_digits [OF assms(2)]) (simp add: deref_def not_isdigit_slash_NUL)
  have 2: "takeWhile isdigit (cs @ CHR ''/'' # rs) = cs
      \<and> dropWhile isdigit (cs @ CHR ''/'' # rs) = CHR ''/'' # rs"
    by (rule takeWhile_digits [OF assms(5)]) (simp add: deref_def not_isdigit_slash_NUL)
  show ?thesis
    unfolding spec_tile_string_def Let_def using assms by (simp add: 1 2)
qed

text \<open>
  Claim C1. Round trip of the tile string: for every tile with zoom from 0 to 12 and
  column and row within the grid of that zoom, \<open>fromString\<close> applied to the string
  that the tile's formatting writes (\<open><zoom>/<column>/<row>\<close> in decimal, the spec's
  tile string form) gives the tile back.
\<close>

theorem Tile_fromString_write_round_trip:
  assumes "0 \<le> z" "z \<le> 12" "0 \<le> c" "c < 2 ^ nat z" "0 \<le> r" "r < 2 ^ nat z"
  shows "fromString (Tile_write (Tile_of z c r)) = Tile_of z c r
       \<and> spec_tile_string (Tile_write (Tile_of z c r))"
proof -
  have "(2::int) ^ nat z \<le> 2 ^ 12" using assms(2) by (intro power_increasing) simp_all
  then have b: "z < 2 ^ 32" "c < 2 ^ 32" "r < 2 ^ 32" using assms(2,4,6) by simp_all
  from Tile_write_digits [OF assms(1) b(1) assms(3) b(2) assms(5) b(3)]
  obtain zs cs rs where w: "Tile_write (Tile_of z c r) = zs @ CHR ''/'' # cs @ CHR ''/'' # rs"
    and zs: "zs \<noteq> []" "list_all isdigit zs" "int (decimal_value zs) = z"
    and cs: "cs \<noteq> []" "list_all isdigit cs" "int (decimal_value cs) = c"
    and rs: "rs \<noteq> []" "list_all isdigit rs" "int (decimal_value rs) = r"
    by blast
  have z12: "decimal_value zs \<le> 12" using zs(3) assms(2) by simp
  have cl: "int (decimal_value cs) \<le> LONG_MAX" using cs(3) b(2) by (simp add: LONG_MAX_def)
  have rl: "int (decimal_value rs) \<le> LONG_MAX" using rs(3) b(3) by (simp add: LONG_MAX_def)
  have "fromString (Tile_write (Tile_of z c r)) = Tile_of z c r"
    unfolding w using fromString_digits [OF zs(1,2) z12 cs(1,2) cl rs(1,2) rl]
    by (simp add: zs(3) cs(3) rs(3))
  moreover have "spec_tile_string (Tile_write (Tile_of z c r))"
    unfolding w by (rule spec_tile_string_digits [OF zs(1,2) z12 cs(1,2) rs(1,2)])
  ultimately show ?thesis by (rule conjI)
qed

theorem Tile_fromString_write_round_trip_witness:
  "(0::int) \<le> 12 \<and> (12::int) \<le> 12 \<and> (0::int) \<le> 4095 \<and> (4095::int) < 2 ^ nat 12
   \<and> (0::int) \<le> 17 \<and> (17::int) < 2 ^ nat 12
   \<and> Tile_write (Tile_of 12 4095 17) = ''12/4095/17''
   \<and> fromString ''12/4095/17'' = Tile_of 12 4095 17"
proof -
  have w: "Tile_write (Tile_of 12 4095 17) = ''12/4095/17''"
    by (simp add: Tile_write_def formatReverse_def to_unsigned_int_def
        unsignedIntegerReverse.simps digit_chars)
  have "fromString (Tile_write (Tile_of 12 4095 17)) = Tile_of 12 4095 17"
    using Tile_fromString_write_round_trip [of 12 4095 17] by simp
  then have "fromString ''12/4095/17'' = Tile_of 12 4095 17" unfolding w .
  then show ?thesis using w by simp
qed

section \<open>BlobStore: the number of pages of a blob\<close>

lemma ceiling_nat_div:
  fixes a b :: nat
  assumes "0 < b"
  shows "nat \<lceil>real a / real b\<rceil> = (a + b - 1) div b"
proof -
  define q where "q = (a + b - 1) div b"
  define r where "r = (a + b - 1) mod b"
  have r: "r < b" using assms by (simp add: r_def)
  have e: "a + b - 1 = q * b + r" by (simp add: q_def r_def)
  have up: "a \<le> q * b" using e r by linarith
  have lo: "q * b < a + b" using e r assms by linarith
  have rb: "0 < real b" using assms by simp
  have "real a \<le> real (q * b)" using up by (simp only: of_nat_le_iff)
  then have u: "real a / real b \<le> real q" using rb by (simp add: pos_divide_le_eq)
  have "real (q * b) < real (a + b)" using lo by (simp only: of_nat_less_iff)
  then have "real q * real b < real a + real b" by simp
  then have "(real q - 1) * real b < real a" by (simp add: algebra_simps)
  then have l: "real q - 1 < real a / real b" using rb by (simp add: pos_less_divide_eq)
  have "\<lceil>real a / real b\<rceil> = int q"
    by (rule ceiling_unique) (use l u in simp_all)
  then show ?thesis by (simp add: q_def)
qed

lemma pagesForPayloadSize_div:
  "pagesForPayloadSize s n = (n + 8 + 2 ^ s - 1) div 2 ^ s"
  unfolding pagesForPayloadSize_def BLOB_HEADER_SIZE_def
  using ceiling_nat_div[of "2 ^ s" "n + 8"] by simp

lemma pagesForPayloadSize_bounds:
  "n + 8 \<le> pagesForPayloadSize s n * 2 ^ s
   \<and> pagesForPayloadSize s n * 2 ^ s < n + 8 + 2 ^ s"
proof -
  define b :: nat where "b = 2 ^ s"
  have b: "0 < b" by (simp add: b_def)
  define q where "q = (n + 8 + b - 1) div b"
  define r where "r = (n + 8 + b - 1) mod b"
  have r: "r < b" using b by (simp add: r_def)
  have e: "n + 8 + b - 1 = q * b + r" by (simp add: q_def r_def)
  have "n + 8 \<le> q * b \<and> q * b < n + 8 + b" using e r b by linarith
  then show ?thesis by (simp add: pagesForPayloadSize_div q_def b_def)
qed

lemma pagesForPayloadSize_default_0: "pagesForPayloadSize default_pageSizeShift 0 = 1"
  by (simp add: pagesForPayloadSize_div default_pageSizeShift_def)

lemma pagesForPayloadSize_default_fits:
  "pagesForPayloadSize default_pageSizeShift (2 ^ default_pageSizeShift - 8) = 1"
  by (simp add: pagesForPayloadSize_div default_pageSizeShift_def)

lemma pagesForPayloadSize_default_spills:
  "pagesForPayloadSize default_pageSizeShift (2 ^ default_pageSizeShift - 7) = 2"
  by (simp add: pagesForPayloadSize_div default_pageSizeShift_def)

text \<open>
  Claim C2. For every payload size, a blob is sized as
  \<open>pages = ceil((payloadSize + 8) / pageSize)\<close> pages: the page count is the
  rounded-up integer quotient, the least number of pages that holds the payload and
  the 8-byte header. With the default page size (shift 12, 4096 bytes), a payload of
  0 bytes takes exactly 1 page, a payload of \<open>pageSize - 8\<close> bytes takes exactly 1
  page, and a payload of \<open>pageSize - 7\<close> bytes takes exactly 2 pages.
\<close>

theorem pagesForPayloadSize_is_ceiling:
  "int (pagesForPayloadSize s n) = \<lceil>real (n + 8) / real (2 ^ s)\<rceil>
   \<and> pagesForPayloadSize s n = (n + 8 + 2 ^ s - 1) div 2 ^ s
   \<and> n + 8 \<le> pagesForPayloadSize s n * 2 ^ s
   \<and> pagesForPayloadSize s n * 2 ^ s < n + 8 + 2 ^ s
   \<and> pagesForPayloadSize default_pageSizeShift 0 = 1
   \<and> pagesForPayloadSize default_pageSizeShift (2 ^ default_pageSizeShift - 8) = 1
   \<and> pagesForPayloadSize default_pageSizeShift (2 ^ default_pageSizeShift - 7) = 2"
proof -
  have "(0::real) \<le> real (n + 8) / real (2 ^ s)" by simp
  then have "0 \<le> \<lceil>real (n + 8) / real (2 ^ s)\<rceil>"
    using ceiling_mono [of 0 "real (n + 8) / real (2 ^ s)"] by simp
  then have c: "int (pagesForPayloadSize s n) = \<lceil>real (n + 8) / real (2 ^ s)\<rceil>"
    by (simp add: pagesForPayloadSize_def BLOB_HEADER_SIZE_def)
  show ?thesis
    using c pagesForPayloadSize_div [of s n] pagesForPayloadSize_bounds [of n s]
      pagesForPayloadSize_default_0 pagesForPayloadSize_default_fits
      pagesForPayloadSize_default_spills
    by (intro conjI) (rule c, simp_all only:)
qed

section \<open>Tile: what fromString accepts\<close>

lemma deref_Cons_iff: "c \<noteq> NUL \<Longrightarrow> deref p = c \<longleftrightarrow> (\<exists>p'. p = c # p')"
  by (cases p) (auto simp: deref_def)

lemma deref_NUL_iff: "NUL \<notin> set p \<Longrightarrow> deref p = NUL \<longleftrightarrow> p = []"
  by (cases p) (auto simp: deref_def)

lemma strtol_parts:
  assumes ws: "list_all isspace ws" and sg: "sg = [] \<or> sg = ''-'' \<or> sg = ''+''"
    and ds: "ds \<noteq> []" "list_all isdigit ds" and rest: "\<not> isdigit (deref rest)"
  shows "strtol (ws @ sg @ ds @ rest)
     = ((if sg = ''-'' then max LONG_MIN (- int (decimal_value ds))
         else min LONG_MAX (int (decimal_value ds))), rest)"
    and "strtol_field (ws @ sg @ ds)"
proof -
  obtain c cs where dsc: "ds = c # cs" using ds(1) by (cases ds) auto
  have c: "isdigit c" using ds(2) dsc by simp
  note nc = isdigit_not_space_sign [OF c]
  have nsp: "\<not> isspace CHR ''-''" "\<not> isspace CHR ''+''" by (simp_all add: isspace_def)
  have wsp: "\<forall>x \<in> set ws. isspace x" using ws by (simp add: list_all_iff)
  have hd: "\<And>r. sg @ ds @ r \<noteq> [] \<and> \<not> isspace (hd (sg @ ds @ r))"
    using sg dsc nc nsp by auto
  have s1: "\<And>r. dropWhile isspace (ws @ sg @ ds @ r) = sg @ ds @ r"
  proof -
    fix r show "dropWhile isspace (ws @ sg @ ds @ r) = sg @ ds @ r"
      using wsp hd [of r] by (cases "sg @ ds @ r") (simp_all add: dropWhile_append2)
  qed
  have neg: "\<And>r. deref (sg @ ds @ r) = CHR ''-'' \<longleftrightarrow> sg = ''-''"
    using sg dsc nc by (auto simp: deref_def)
  have s2: "\<And>r. (if deref (sg @ ds @ r) = CHR ''-'' \<or> deref (sg @ ds @ r) = CHR ''+''
             then tl (sg @ ds @ r) else sg @ ds @ r) = ds @ r"
    using sg dsc nc by (auto simp: deref_def)
  note tw = takeWhile_digits [OF ds(2) rest]
  show "strtol (ws @ sg @ ds @ rest)
     = ((if sg = ''-'' then max LONG_MIN (- int (decimal_value ds))
         else min LONG_MAX (int (decimal_value ds))), rest)"
    unfolding strtol_def Let_def s1 s2 using tw ds(1) neg [of rest] by simp
  have A: "dropWhile isspace (ws @ sg @ ds) = sg @ ds" using s1 [of "[]"] by simp
  have B: "(if deref (sg @ ds) = CHR ''-'' \<or> deref (sg @ ds) = CHR ''+''
             then tl (sg @ ds) else sg @ ds) = ds"
    using sg dsc nc by (auto simp: deref_def)
  show "strtol_field (ws @ sg @ ds)"
    unfolding strtol_field_def Let_def A B using ds by simp
qed

lemma not_isdigit_deref_dropWhile: "\<not> isdigit (deref (dropWhile isdigit xs))"
  by (induction xs) (simp_all add: deref_def not_isdigit_slash_NUL)

lemma strtol_split:
  "\<exists>f. s = f @ snd (strtol s) \<and> strtol_field f \<and> fst (strtol f) = fst (strtol s)"
proof -
  define ws where "ws = takeWhile isspace s"
  define s1 where "s1 = dropWhile isspace s"
  define sg where "sg = (if deref s1 = CHR ''-'' \<or> deref s1 = CHR ''+'' then [hd s1] else [])"
  define s2 where "s2 = (if deref s1 = CHR ''-'' \<or> deref s1 = CHR ''+'' then tl s1 else s1)"
  define ds where "ds = takeWhile isdigit s2"
  define rest where "rest = dropWhile isdigit s2"
  have e1: "s = ws @ s1" by (simp add: ws_def s1_def)
  have e2: "s1 = sg @ s2"
    by (cases s1) (auto simp: sg_def s2_def deref_def NUL_def)
  have e3: "s2 = ds @ rest" by (simp add: ds_def rest_def)
  have wsp: "list_all isspace ws" by (simp add: ws_def list_all_iff) (meson set_takeWhileD)
  have dsd: "list_all isdigit ds" by (simp add: ds_def list_all_iff) (meson set_takeWhileD)
  have sgc: "sg = [] \<or> sg = ''-'' \<or> sg = ''+''"
    by (cases s1) (auto simp: sg_def deref_def NUL_def)
  have nd: "\<not> isdigit (deref rest)" unfolding rest_def by (rule not_isdigit_deref_dropWhile)
  have st: "strtol s =
      (if ds = [] then (0, s)
       else if deref s1 = CHR ''-'' then (max LONG_MIN (- int (decimal_value ds)), rest)
       else (min LONG_MAX (int (decimal_value ds)), rest))"
    unfolding strtol_def Let_def ds_def rest_def s2_def s1_def ..
  show ?thesis
  proof (cases "ds = []")
    case True
    then have "strtol s = (0, s)" by (simp add: st)
    moreover have "strtol [] = (0, [])" by (simp add: strtol_def deref_def NUL_def)
    ultimately show ?thesis by (intro exI [of _ "[]"]) (simp add: strtol_field_def)
  next
    case False
    let ?f = "ws @ sg @ ds"
    have nd0: "\<not> isdigit (deref [])" by (simp add: deref_def not_isdigit_slash_NUL)
    have a: "strtol (ws @ sg @ ds @ rest) = ((if sg = ''-'' then max LONG_MIN (- int (decimal_value ds))
         else min LONG_MAX (int (decimal_value ds))), rest)"
      by (rule strtol_parts(1) [OF wsp sgc False dsd nd])
    have b: "strtol (ws @ sg @ ds @ []) = ((if sg = ''-'' then max LONG_MIN (- int (decimal_value ds))
         else min LONG_MAX (int (decimal_value ds))), [])"
      by (rule strtol_parts(1) [OF wsp sgc False dsd nd0])
    have s: "s = ws @ sg @ ds @ rest" using e1 e2 e3 by simp
    have "s = ?f @ snd (strtol s)" using a s by simp
    moreover have "strtol_field ?f" by (rule strtol_parts(2) [OF wsp sgc False dsd nd])
    moreover have "fst (strtol ?f) = fst (strtol s)" using a b s by simp
    ultimately show ?thesis by blast
  qed
qed

lemma fromString_fields:
  assumes nul: "NUL \<notin> set s" and nn: "fromString s \<noteq> Tile_null"
  shows "\<exists>f1 f2 f3. s = f1 @ CHR ''/'' # f2 @ CHR ''/'' # f3
      \<and> strtol_field f1 \<and> strtol_field f2 \<and> strtol_field f3
      \<and> 0 \<le> fst (strtol f1) \<and> fst (strtol f1) \<le> 12
      \<and> fromString s = fromColumnRowZoom (fst (strtol f2)) (fst (strtol f3)) (fst (strtol f1))"
proof -
  have sl: "CHR ''/'' \<noteq> NUL" by (simp add: NUL_def)
  obtain zv p1 where 1: "strtol s = (zv, p1)" by (cases "strtol s")
  from nn 1 have z: "0 \<le> zv" "zv \<le> 12" and d1: "deref p1 = CHR ''/''"
    by (auto simp: fromString_def split: if_splits)
  from d1 obtain q1 where p1: "p1 = CHR ''/'' # q1" using deref_Cons_iff [OF sl] by blast
  obtain cv p2 where 2: "strtol q1 = (cv, p2)" by (cases "strtol q1")
  from nn 1 z d1 p1 2 have d2: "deref p2 = CHR ''/''"
    by (auto simp: fromString_def split: if_splits)
  from d2 obtain q2 where p2: "p2 = CHR ''/'' # q2" using deref_Cons_iff [OF sl] by blast
  obtain rv p3 where 3: "strtol q2 = (rv, p3)" by (cases "strtol q2")
  from nn 1 z d1 p1 2 d2 p2 3 have d3: "deref p3 = NUL"
    by (auto simp: fromString_def split: if_splits)
  have val: "fromString s = fromColumnRowZoom cv rv zv"
    using 1 z d1 p1 2 d2 p2 3 d3 by (simp add: fromString_def)
  from strtol_split [of s] 1 obtain f1 where f1: "s = f1 @ p1" "strtol_field f1" "fst (strtol f1) = zv"
    by auto
  from strtol_split [of q1] 2 obtain f2 where f2: "q1 = f2 @ p2" "strtol_field f2" "fst (strtol f2) = cv"
    by auto
  from strtol_split [of q2] 3 obtain f3 where f3: "q2 = f3 @ p3" "strtol_field f3" "fst (strtol f3) = rv"
    by auto
  have "NUL \<notin> set p3" using nul f1(1) p1 f2(1) p2 f3(1) by auto
  then have "p3 = []" using d3 deref_NUL_iff by blast
  then have "s = f1 @ CHR ''/'' # f2 @ CHR ''/'' # f3" using f1(1) p1 f2(1) p2 f3(1) by simp
  then show ?thesis using f1(2,3) f2(2,3) f3(2,3) z val by blast
qed

lemmas fromString_eval =
  fromString_def strtol_def isdigit_def isspace_def deref_def decimal_value_def
  digit_value_def LONG_MAX_def LONG_MIN_def NUL_def fromColumnRowZoom_def

lemma fromString_examples:
  "fromString ''12/0/0'' = Tile_of 12 0 0"
  "fromString ''5/17/9'' = Tile_of 5 17 9"
  "fromString ''13/0/0'' = Tile_null"
  "fromString ''-1/0/0'' = Tile_null"
  by (simp_all add: fromString_eval)

text \<open>
  Claim C3, as stated: \<open>fromString s\<close> is a non-null tile only when \<open>s\<close> is exactly
  \<open><zoom>/<column>/<row>\<close> with unsigned decimal numbers, zoom from 0 to 12, no
  white space and no trailing characters. This fails: \<open>strtol\<close> skips white space
  before a number, takes a sign, and converts nothing (giving 0) where no digit follows,
  so \<open>" 5/17/9"\<close>, \<open>"5/ 17/+9"\<close> and \<open>"5//"\<close> give tiles.
\<close>

theorem fromString_accepts_more_counterexample:
  "fromString '' 5/17/9'' = Tile_of 5 17 9 \<and> \<not> spec_tile_string '' 5/17/9''
   \<and> fromString ''5/ 17/+9'' = Tile_of 5 17 9 \<and> \<not> spec_tile_string ''5/ 17/+9''
   \<and> fromString ''5//'' = Tile_of 5 0 0 \<and> \<not> spec_tile_string ''5//''"
  by (simp add: fromString_eval spec_tile_string_def)

text \<open>
  Claim C3, amended: for every input string \<open>s\<close>, \<open>fromString s\<close> is a non-null tile
  only when \<open>s\<close> consists of three fields separated by two \<open>/\<close>, with nothing after
  the third, where each field is what \<open>strtol\<close> reads as a whole: nothing at all (read
  as 0), or optional white space, an optional sign and at least one decimal digit; and
  the value of the first field is from 0 to 12. The tile then has the values of the
  three fields. Every other input gives the null tile, among them \<open>"13/0/0"\<close> and
  \<open>"-1/0/0"\<close>, while \<open>"12/0/0"\<close> parses.
\<close>

theorem fromString_nonnull_only_strtol_fields:
  assumes "NUL \<notin> set s" and "fromString s \<noteq> Tile_null"
  shows "(\<exists>f1 f2 f3. s = f1 @ CHR ''/'' # f2 @ CHR ''/'' # f3
            \<and> strtol_field f1 \<and> strtol_field f2 \<and> strtol_field f3
            \<and> 0 \<le> fst (strtol f1) \<and> fst (strtol f1) \<le> 12
            \<and> fromString s
                = fromColumnRowZoom (fst (strtol f2)) (fst (strtol f3)) (fst (strtol f1)))
       \<and> fromString ''13/0/0'' = Tile_null
       \<and> fromString ''-1/0/0'' = Tile_null
       \<and> fromString ''12/0/0'' = Tile_of 12 0 0"
  using fromString_fields [OF assms] fromString_examples(1,3,4) by (intro conjI)

theorem fromString_nonnull_only_strtol_fields_witness:
  "NUL \<notin> set ''5/ 17/+9''
   \<and> fromString ''5/ 17/+9'' \<noteq> Tile_null
   \<and> (\<exists>f1 f2 f3. ''5/ 17/+9'' = f1 @ CHR ''/'' # f2 @ CHR ''/'' # f3
          \<and> strtol_field f1 \<and> strtol_field f2 \<and> strtol_field f3
          \<and> 0 \<le> fst (strtol f1) \<and> fst (strtol f1) \<le> 12
          \<and> fromString ''5/ 17/+9''
              = fromColumnRowZoom (fst (strtol f2)) (fst (strtol f3)) (fst (strtol f1)))"
proof -
  have n: "NUL \<notin> set ''5/ 17/+9''" by (simp add: NUL_def)
  have v: "fromString ''5/ 17/+9'' \<noteq> Tile_null" by (simp add: fromString_eval)
  from fromString_nonnull_only_strtol_fields [OF n v]
  have "\<exists>f1 f2 f3. ''5/ 17/+9'' = f1 @ CHR ''/'' # f2 @ CHR ''/'' # f3
          \<and> strtol_field f1 \<and> strtol_field f2 \<and> strtol_field f3
          \<and> 0 \<le> fst (strtol f1) \<and> fst (strtol f1) \<le> 12
          \<and> fromString ''5/ 17/+9''
              = fromColumnRowZoom (fst (strtol f2)) (fst (strtol f3)) (fst (strtol f1))"
    by (rule conjunct1)
  with n v show ?thesis by (intro conjI)
qed

section \<open>Selector: the clause list\<close>


lemma addClause_loop_keys:
  assumes "\<forall>cur c. keyOp cur = keyOp c \<longrightarrow> keyOp (absorb cur c) = keyOp cur"
  shows "keyOp ` set (fst (addClause_loop absorb clause cs)) = insert (keyOp clause) (keyOp ` set cs)"
  using assms
  by (induction cs) (auto simp: compareTo_def Let_def split: prod.splits)

lemma addClause_loop_sorted:
  assumes "\<forall>cur c. keyOp cur = keyOp c \<longrightarrow> keyOp (absorb cur c) = keyOp cur"
    and "sorted_wrt (<) (map keyOp cs)"
  shows "sorted_wrt (<) (map keyOp (fst (addClause_loop absorb clause cs)))"
  using assms(2)
proof (induction cs)
  case Nil
  then show ?case by simp
next
  case (Cons current rest)
  have k: "keyOp ` set (fst (addClause_loop absorb clause rest)) = insert (keyOp clause) (keyOp ` set rest)"
    by (rule addClause_loop_keys[OF assms(1)])
  show ?case
  proof (cases "keyOp current < keyOp clause")
    case True
    obtain rest' linked where r: "addClause_loop absorb clause rest = (rest', linked)"
      by (cases "addClause_loop absorb clause rest")
    have s: "sorted_wrt (<) (map keyOp rest')" using Cons r by simp
    have "\<forall>y \<in> keyOp ` set rest'. keyOp current < y"
      using k r True Cons.prems by auto
    then have "sorted_wrt (<) (map keyOp (current # rest'))" using s by simp
    then show ?thesis using True r by (simp add: compareTo_def)
  next
    case False
    then show ?thesis using Cons assms(1)
      by (auto simp: compareTo_def Let_def split: prod.splits)
  qed
qed

lemma addClause_loop_absorbed:
  assumes "sorted_wrt (<) (map keyOp cs)" "keyOp clause \<in> keyOp ` set cs"
  shows "addClause_loop absorb clause cs =
      (map (\<lambda>cur. if keyOp cur = keyOp clause then absorb cur clause else cur) cs, False)"
  using assms
proof (induction cs)
  case Nil
  then show ?case by simp
next
  case (Cons current rest)
  show ?case
  proof (cases "keyOp current = keyOp clause")
    case True
    then have "\<forall>x \<in> set rest. keyOp x \<noteq> keyOp clause" using Cons.prems(1) by auto
    then have "map (\<lambda>cur. if keyOp cur = keyOp clause then absorb cur clause else cur) rest = rest"
      by (simp add: map_idI)
    then show ?thesis using True by (simp add: compareTo_def)
  next
    case False
    then have in_rest: "keyOp clause \<in> keyOp ` set rest" using Cons.prems(2) by auto
    then have "keyOp current < keyOp clause" using Cons.prems(1) by auto
    then show ?thesis using Cons.IH in_rest Cons.prems(1) False
      by (simp add: compareTo_def)
  qed
qed

lemma firstClause_addClause:
  "firstClause (addClause K f absorb sel clause)
     = fst (addClause_loop absorb clause (firstClause sel))"
  by (simp add: addClause_def split: prod.splits bool.splits)

lemma addClause_sorted:
  assumes "\<forall>cur c. keyOp cur = keyOp c \<longrightarrow> keyOp (absorb cur c) = keyOp cur"
    and "sorted_wrt (<) (map keyOp (firstClause sel))"
  shows "sorted_wrt (<) (map keyOp (firstClause (addClause K f absorb sel clause)))"
  unfolding firstClause_addClause by (rule addClause_loop_sorted [OF assms])

lemma addClauses_sorted:
  assumes "\<forall>cur c. keyOp cur = keyOp c \<longrightarrow> keyOp (absorb cur c) = keyOp cur"
    and "sorted_wrt (<) (map keyOp (firstClause sel))"
  shows "sorted_wrt (<) (map keyOp (firstClause (addClauses K f absorb sel cs)))"
  using assms(2)
proof (induction cs arbitrary: sel)
  case Nil
  then show ?case by (simp add: addClauses_def)
next
  case (Cons c cs)
  have "sorted_wrt (<) (map keyOp (firstClause (addClause K f absorb sel c)))"
    by (rule addClause_sorted [OF assms(1) Cons.prems])
  from Cons.IH [OF this] show ?case by (simp add: addClauses_def)
qed

lemma addClauses_Selector_sorted:
  assumes "\<forall>cur c. keyOp cur = keyOp c \<longrightarrow> keyOp (absorb cur c) = keyOp cur"
  shows "sorted_wrt (<) (map keyOp (firstClause (addClauses K f absorb (Selector types) cs)))"
  by (rule addClauses_sorted [OF assms]) (simp add: Selector_def)

lemma addClause_absorbs_equal_key:
  assumes "sorted_wrt (<) (map keyOp (firstClause sel))"
    and "keyOp clause \<in> keyOp ` set (firstClause sel)"
  shows "firstClause (addClause K f absorb sel clause)
     = map (\<lambda>cur. if keyOp cur = keyOp clause then absorb cur clause else cur)
         (firstClause sel)"
  unfolding firstClause_addClause by (simp add: addClause_loop_absorbed [OF assms])

lemma sample_absorb_keeps_key:
  "\<forall>cur c. keyOp cur = keyOp c \<longrightarrow> keyOp (sample_absorb cur c) = keyOp cur"
  by (simp add: sample_absorb_def)

text \<open>
  Claim C4. After any sequence of \<open>addClause\<close> calls on a new Selector, the clause
  list from \<open>firstClause\<close> on is in ascending \<open>keyOp\<close> order with at most one clause
  per key (the keys are strictly ascending, hence distinct), and a further clause whose
  key equals that of a clause of the list is absorbed into that clause, in place,
  rather than linked in as a second node. (\<open>absorb\<close> is any operation that leaves
  the key of the absorbing clause as it is.)
\<close>

theorem addClause_sorted_one_clause_per_key:
  assumes "\<forall>cur c. keyOp cur = keyOp c \<longrightarrow> keyOp (absorb cur c) = keyOp cur"
  shows "sorted_wrt (<) (map keyOp (firstClause (addClauses K f absorb (Selector types) cs)))
       \<and> distinct (map keyOp (firstClause (addClauses K f absorb (Selector types) cs)))
       \<and> (keyOp clause \<in> keyOp ` set (firstClause (addClauses K f absorb (Selector types) cs))
            \<longrightarrow> firstClause (addClause K f absorb
                      (addClauses K f absorb (Selector types) cs) clause)
                 = map (\<lambda>cur. if keyOp cur = keyOp clause then absorb cur clause else cur)
                     (firstClause (addClauses K f absorb (Selector types) cs)))"
proof -
  let ?sel = "addClauses K f absorb (Selector types) cs"
  have s: "sorted_wrt (<) (map keyOp (firstClause ?sel))"
    by (rule addClauses_Selector_sorted [OF assms])
  have d: "distinct (map keyOp (firstClause ?sel))"
    using s by (simp add: strict_sorted_iff)
  show ?thesis
    using s d addClause_absorbs_equal_key [OF s] by (intro conjI impI)
qed

theorem addClause_sorted_one_clause_per_key_witness:
  "firstClause (addClauses sample_KEY_REQUIRED sample_fromCategory sample_absorb (Selector 7)
        [sample_clause 5 0 3, sample_clause 2 1 1, sample_clause 9 0 2])
     = [sample_clause 2 1 1, sample_clause 5 0 3, sample_clause 9 0 2]
   \<and> sorted_wrt (<) (map keyOp (firstClause
        (addClauses sample_KEY_REQUIRED sample_fromCategory sample_absorb (Selector 7)
          [sample_clause 5 0 3, sample_clause 2 1 1, sample_clause 9 0 2])))
   \<and> firstClause (addClause sample_KEY_REQUIRED sample_fromCategory sample_absorb
        (addClauses sample_KEY_REQUIRED sample_fromCategory sample_absorb (Selector 7)
          [sample_clause 5 0 3, sample_clause 2 1 1, sample_clause 9 0 2])
        (sample_clause 5 1 3))
     = [sample_clause 2 1 1, sample_clause 5 1 3, sample_clause 9 0 2]"
proof -
  let ?sel = "addClauses sample_KEY_REQUIRED sample_fromCategory sample_absorb (Selector 7)
          [sample_clause 5 0 3, sample_clause 2 1 1, sample_clause 9 0 2]"
  have ev: "firstClause ?sel = [sample_clause 2 1 1, sample_clause 5 0 3, sample_clause 9 0 2]"
    by code_simp
  have k: "keyOp (sample_clause 5 1 3) \<in> keyOp ` set (firstClause ?sel)"
    unfolding ev by (simp add: sample_clause_def)
  have m: "map (\<lambda>cur. if keyOp cur = keyOp (sample_clause 5 1 3)
                       then sample_absorb cur (sample_clause 5 1 3) else cur)
             [sample_clause 2 1 1, sample_clause 5 0 3, sample_clause 9 0 2]
           = [sample_clause 2 1 1, sample_clause 5 1 3, sample_clause 9 0 2]"
    by code_simp
  note inst = addClause_sorted_one_clause_per_key [OF sample_absorb_keeps_key,
      of sample_KEY_REQUIRED sample_fromCategory 7
         "[sample_clause 5 0 3, sample_clause 2 1 1, sample_clause 9 0 2]"
         "sample_clause 5 1 3"]
  from inst have s: "sorted_wrt (<) (map keyOp (firstClause ?sel))" by (rule conjunct1)
  from inst k have "firstClause (addClause sample_KEY_REQUIRED sample_fromCategory sample_absorb
        ?sel (sample_clause 5 1 3))
      = map (\<lambda>cur. if keyOp cur = keyOp (sample_clause 5 1 3)
                       then sample_absorb cur (sample_clause 5 1 3) else cur)
          (firstClause ?sel)"
    by blast
  then have a: "firstClause (addClause sample_KEY_REQUIRED sample_fromCategory sample_absorb
        ?sel (sample_clause 5 1 3))
      = [sample_clause 2 1 1, sample_clause 5 1 3, sample_clause 9 0 2]"
    unfolding ev m .
  show ?thesis using ev s a by (intro conjI)
qed

section \<open>Selector: the index bits\<close>


lemma addClause_absorbed_indexBits:
  assumes "sorted_wrt (<) (map keyOp (firstClause sel))"
    and "keyOp clause \<in> keyOp ` set (firstClause sel)"
  shows "indexBits (addClause K f absorb sel clause) = indexBits sel"
  by (simp add: addClause_def addClause_loop_absorbed [OF assms])




section \<open>LengthUnit: the tables are reciprocal\<close>

lemma round_half_even_eqI:
  assumes "\<bar>y - of_int m\<bar> < 1 / 2"
  shows "round_half_even y = m"
proof -
  have lo: "of_int m - 1 / 2 < y" and hi: "y < of_int m + 1 / 2" using assms by linarith+
  consider "\<lfloor>y\<rfloor> = m" | "\<lfloor>y\<rfloor> = m - 1"
  proof -
    have "of_int (m - 1) \<le> y" using lo by simp
    then have "m - 1 \<le> \<lfloor>y\<rfloor>" by (simp only: le_floor_iff)
    moreover have "y < of_int (m + 1)" using hi by simp
    then have "\<lfloor>y\<rfloor> < m + 1" by (simp only: floor_less_iff)
    ultimately have "\<lfloor>y\<rfloor> = m \<or> \<lfloor>y\<rfloor> = m - 1" by linarith
    then show ?thesis using that by blast
  qed
  then show ?thesis
  proof cases
    case 1
    then have "y - of_int \<lfloor>y\<rfloor> < 1 / 2" using hi by simp
    then show ?thesis using 1 by (simp add: round_half_even_def Let_def)
  next
    case 2
    then have "1 / 2 < y - of_int \<lfloor>y\<rfloor>" using lo by simp
    then show ?thesis using 2 by (simp add: round_half_even_def Let_def)
  qed
qed

lemma binary64_scaled:
  fixes L :: nat
  assumes x: "0 < x" and L: "53 \<le> L"
    and lo: "2 ^ (L - 1) \<le> x * 2 ^ smallest_exponent"
    and hi: "x * 2 ^ smallest_exponent < 2 ^ L"
  shows "binary64 x
     = of_int (round_half_even (x * 2 ^ smallest_exponent / 2 ^ (L - 53))) * 2 ^ (L - 53)
         / 2 ^ smallest_exponent"
proof -
  define y where "y = x * 2 ^ smallest_exponent"
  have "of_int (2 ^ (L - 1)) \<le> y" using lo by (simp add: y_def)
  then have f1: "2 ^ (L - 1) \<le> \<lfloor>y\<rfloor>" by (simp only: le_floor_iff)
  have "y < of_int (2 ^ L)" using hi by (simp add: y_def)
  then have f2: "\<lfloor>y\<rfloor> < 2 ^ L" by (simp only: floor_less_iff)
  have "bitlen \<lfloor>y\<rfloor> \<le> int L" using f2 by (simp add: bitlen_le_iff_power)
  moreover have "int L \<le> bitlen \<lfloor>y\<rfloor>" using f1 L by (simp add: bitlen_ge_iff_power)
  ultimately have b: "bitlen \<lfloor>y\<rfloor> = int L" by simp
  have u: "(if int L \<le> 53 then 1 else 2 ^ nat (int L - 53)) = (2::real) ^ (L - 53)"
    using L by (auto simp: nat_diff_distrib')
  have ax: "\<bar>x\<bar> = x" "sgn x = 1" using x by simp_all
  show ?thesis
    unfolding binary64_def Let_def ax y_def [symmetric] b u by simp
qed

lemma binary64_ge1:
  fixes e :: nat
  assumes lo: "2 ^ e \<le> x" and hi: "x < 2 ^ (e + 1)"
  shows "binary64 x = of_int (round_half_even (x * 2 ^ 52 / 2 ^ e)) * 2 ^ e / 2 ^ 52"
proof -
  define s where "s = smallest_exponent"
  define t where "t = s - 52"
  have s: "s = t + 52" by (simp add: t_def s_def smallest_exponent_def)
  have x: "0 < x" using lo by (rule less_le_trans [rotated]) simp
  have L: "53 \<le> e + s + 1" by (simp add: s)
  have p: "(2::real) ^ s > 0" by simp
  have lo': "2 ^ (e + s + 1 - 1) \<le> x * 2 ^ s"
    using lo p by (simp add: power_add)
  have hi': "x * 2 ^ s < 2 ^ (e + s + 1)"
    using hi p by (simp add: power_add)
  have d: "e + s + 1 - 53 = e + t" by (simp add: s)
  have "binary64 x = of_int (round_half_even (x * 2 ^ s / 2 ^ (e + t))) * 2 ^ (e + t) / 2 ^ s"
    using binary64_scaled [OF x, of "e + s + 1"] L lo' hi' unfolding s_def [symmetric] d
    by blast
  also have "x * 2 ^ s / 2 ^ (e + t) = x * 2 ^ 52 / 2 ^ e"
    by (simp add: s power_add)
  also have "of_int (round_half_even (x * 2 ^ 52 / 2 ^ e)) * 2 ^ (e + t) / 2 ^ s
      = of_int (round_half_even (x * 2 ^ 52 / 2 ^ e)) * 2 ^ e / (2 ^ 52 :: real)"
    by (simp add: s power_add)
  finally show ?thesis .
qed

lemma binary64_lt1:
  fixes n :: nat
  assumes n: "n \<le> 1022" and lo: "1 \<le> x * 2 ^ n" and hi: "x * 2 ^ n < 2"
  shows "binary64 x = of_int (round_half_even (x * 2 ^ (52 + n))) / 2 ^ (52 + n)"
proof -
  define s where "s = smallest_exponent"
  define t where "t = 1022 - n"
  have s: "s = t + (52 + n)" using n by (simp add: t_def s_def smallest_exponent_def)
  have s2: "s = (t + 52) + n" using s by simp
  have x: "0 < x"
  proof (rule ccontr)
    assume "\<not> 0 < x"
    then have "x * 2 ^ n \<le> 0" by (simp add: mult_le_0_iff)
    with lo show False by simp
  qed
  have L: "53 \<le> t + 53" by simp
  have p: "(2::real) ^ (t + 52) > 0" by simp
  have "2 ^ (t + 52) * 1 \<le> 2 ^ (t + 52) * (x * 2 ^ n)"
    using lo p by (intro mult_left_mono) simp_all
  then have lo': "2 ^ (t + 53 - 1) \<le> x * 2 ^ s"
    by (simp add: s2 power_add mult_ac)
  have "2 ^ (t + 52) * (x * 2 ^ n) < 2 ^ (t + 52) * 2"
    using hi p by (intro mult_strict_left_mono) simp_all
  then have hi': "x * 2 ^ s < 2 ^ (t + 53)"
    by (simp add: s2 power_add mult_ac)
  have d: "t + 53 - 53 = t" by simp
  have "binary64 x = of_int (round_half_even (x * 2 ^ s / 2 ^ t)) * 2 ^ t / 2 ^ s"
    using binary64_scaled [OF x L] lo' hi' unfolding s_def [symmetric] d by blast
  also have "x * 2 ^ s / 2 ^ t = x * 2 ^ (52 + n)"
    by (simp add: s power_add)
  also have "of_int (round_half_even (x * 2 ^ (52 + n))) * 2 ^ t / 2 ^ s
      = of_int (round_half_even (x * 2 ^ (52 + n))) / (2 ^ (52 + n) :: real)"
    by (simp add: s power_add)
  finally show ?thesis .
qed

lemma binary64_1: "binary64 1 = 1"
proof -
  have r: "round_half_even (1 * 2 ^ 52 / 2 ^ 0) = 4503599627370496"
    by (rule round_half_even_eqI) simp
  have b: "binary64 1 = of_int (round_half_even (1 * 2 ^ 52 / 2 ^ 0)) * 2 ^ 0 / 2 ^ 52"
    by (rule binary64_ge1) simp_all
  show ?thesis unfolding b r by simp
qed

lemma METERS_TO_UNIT_km: "binary64 (1 / 1000) = 1152921504606847 / 2 ^ 60"
proof -
  have r: "round_half_even (1 / 1000 * 2 ^ (52 + 10)) = 4611686018427388"
    by (rule round_half_even_eqI) simp
  have b: "binary64 (1 / 1000)
      = of_int (round_half_even (1 / 1000 * 2 ^ (52 + 10))) / 2 ^ (52 + 10)"
    by (rule binary64_lt1) simp_all
  show ?thesis unfolding b r by simp
qed

lemma reciprocal_km: "binary64 (1 / (1152921504606847 / 2 ^ 60)) = 1000"
proof -
  have r: "round_half_even (1 / (1152921504606847 / 2 ^ 60) * 2 ^ 52 / 2 ^ 9) = 8796093022208000"
    by (rule round_half_even_eqI) simp
  have b: "binary64 (1 / (1152921504606847 / 2 ^ 60))
      = of_int (round_half_even (1 / (1152921504606847 / 2 ^ 60) * 2 ^ 52 / 2 ^ 9)) * 2 ^ 9 / 2 ^ 52"
    by (rule binary64_ge1) simp_all
  show ?thesis unfolding b r by simp
qed

lemma product_km: "binary64 (1000 * (1152921504606847 / 2 ^ 60)) = 1"
proof -
  have r: "round_half_even (1000 * (1152921504606847 / 2 ^ 60) * 2 ^ 52 / 2 ^ 0) = 4503599627370496"
    by (rule round_half_even_eqI) simp
  have b: "binary64 (1000 * (1152921504606847 / 2 ^ 60))
      = of_int (round_half_even (1000 * (1152921504606847 / 2 ^ 60) * 2 ^ 52 / 2 ^ 0)) * 2 ^ 0 / 2 ^ 52"
    by (rule binary64_ge1) simp_all
  show ?thesis unfolding b r by simp
qed

lemma METERS_TO_UNIT_feet: "binary64 (328084 / 100000) = 7387794900731109 / 2 ^ 51"
proof -
  have r: "round_half_even (328084 / 100000 * 2 ^ 52 / 2 ^ 1) = 7387794900731109"
    by (rule round_half_even_eqI) simp
  have b: "binary64 (328084 / 100000)
      = of_int (round_half_even (328084 / 100000 * 2 ^ 52 / 2 ^ 1)) * 2 ^ 1 / 2 ^ 52"
    by (rule binary64_ge1) simp_all
  show ?thesis unfolding b r by simp
qed

lemma reciprocal_feet: "binary64 (1 / (7387794900731109 / 2 ^ 51)) = 5490788489984877 / 2 ^ 54"
proof -
  have r: "round_half_even (1 / (7387794900731109 / 2 ^ 51) * 2 ^ (52 + 2)) = 5490788489984877"
    by (rule round_half_even_eqI) simp
  have b: "binary64 (1 / (7387794900731109 / 2 ^ 51))
      = of_int (round_half_even (1 / (7387794900731109 / 2 ^ 51) * 2 ^ (52 + 2))) / 2 ^ (52 + 2)"
    by (rule binary64_lt1) simp_all
  show ?thesis unfolding b r by simp
qed

lemma product_feet: "binary64 (5490788489984877 / 2 ^ 54 * (7387794900731109 / 2 ^ 51)) = 1"
proof -
  have r: "round_half_even (5490788489984877 / 2 ^ 54 * (7387794900731109 / 2 ^ 51) * 2 ^ (52 + 1)) = 9007199254740992"
    by (rule round_half_even_eqI) simp
  have b: "binary64 (5490788489984877 / 2 ^ 54 * (7387794900731109 / 2 ^ 51))
      = of_int (round_half_even (5490788489984877 / 2 ^ 54 * (7387794900731109 / 2 ^ 51) * 2 ^ (52 + 1))) / 2 ^ (52 + 1)"
    by (rule binary64_lt1) simp_all
  show ?thesis unfolding b r by simp
qed

lemma METERS_TO_UNIT_yards: "binary64 (1093613 / 1000000) = 2462597549643765 / 2 ^ 51"
proof -
  have r: "round_half_even (1093613 / 1000000 * 2 ^ 52 / 2 ^ 0) = 4925195099287530"
    by (rule round_half_even_eqI) simp
  have b: "binary64 (1093613 / 1000000)
      = of_int (round_half_even (1093613 / 1000000 * 2 ^ 52 / 2 ^ 0)) * 2 ^ 0 / 2 ^ 52"
    by (rule binary64_ge1) simp_all
  show ?thesis unfolding b r by simp
qed

lemma reciprocal_yards: "binary64 (1 / (2462597549643765 / 2 ^ 51)) = 4118092622683249 / 2 ^ 52"
proof -
  have r: "round_half_even (1 / (2462597549643765 / 2 ^ 51) * 2 ^ (52 + 1)) = 8236185245366498"
    by (rule round_half_even_eqI) simp
  have b: "binary64 (1 / (2462597549643765 / 2 ^ 51))
      = of_int (round_half_even (1 / (2462597549643765 / 2 ^ 51) * 2 ^ (52 + 1))) / 2 ^ (52 + 1)"
    by (rule binary64_lt1) simp_all
  show ?thesis unfolding b r by simp
qed

lemma product_yards: "binary64 (4118092622683249 / 2 ^ 52 * (2462597549643765 / 2 ^ 51)) = 1"
proof -
  have r: "round_half_even (4118092622683249 / 2 ^ 52 * (2462597549643765 / 2 ^ 51) * 2 ^ (52 + 1)) = 9007199254740992"
    by (rule round_half_even_eqI) simp
  have b: "binary64 (4118092622683249 / 2 ^ 52 * (2462597549643765 / 2 ^ 51))
      = of_int (round_half_even (4118092622683249 / 2 ^ 52 * (2462597549643765 / 2 ^ 51) * 2 ^ (52 + 1))) / 2 ^ (52 + 1)"
    by (rule binary64_lt1) simp_all
  show ?thesis unfolding b r by simp
qed

lemma METERS_TO_UNIT_miles: "binary64 (6213711922373339 / 10000000000000000000) = 5731137678988939 / 2 ^ 63"
proof -
  have r: "round_half_even (6213711922373339 / 10000000000000000000 * 2 ^ (52 + 11)) = 5731137678988939"
    by (rule round_half_even_eqI) simp
  have b: "binary64 (6213711922373339 / 10000000000000000000)
      = of_int (round_half_even (6213711922373339 / 10000000000000000000 * 2 ^ (52 + 11))) / 2 ^ (52 + 11)"
    by (rule binary64_lt1) simp_all
  show ?thesis unfolding b r by simp
qed

lemma reciprocal_miles: "binary64 (1 / (5731137678988939 / 2 ^ 63)) = 1769492441091539 / 2 ^ 40"
proof -
  have r: "round_half_even (1 / (5731137678988939 / 2 ^ 63) * 2 ^ 52 / 2 ^ 10) = 7077969764366156"
    by (rule round_half_even_eqI) simp
  have b: "binary64 (1 / (5731137678988939 / 2 ^ 63))
      = of_int (round_half_even (1 / (5731137678988939 / 2 ^ 63) * 2 ^ 52 / 2 ^ 10)) * 2 ^ 10 / 2 ^ 52"
    by (rule binary64_ge1) simp_all
  show ?thesis unfolding b r by simp
qed

lemma product_miles: "binary64 (1769492441091539 / 2 ^ 40 * (5731137678988939 / 2 ^ 63)) = 1"
proof -
  have r: "round_half_even (1769492441091539 / 2 ^ 40 * (5731137678988939 / 2 ^ 63) * 2 ^ (52 + 1)) = 9007199254740992"
    by (rule round_half_even_eqI) simp
  have b: "binary64 (1769492441091539 / 2 ^ 40 * (5731137678988939 / 2 ^ 63))
      = of_int (round_half_even (1769492441091539 / 2 ^ 40 * (5731137678988939 / 2 ^ 63) * 2 ^ (52 + 1))) / 2 ^ (52 + 1)"
    by (rule binary64_lt1) simp_all
  show ?thesis unfolding b r by simp
qed

lemma product_meters: "binary64 (1 * 1) = 1"
  using binary64_1 by simp

lemma METERS_TO_UNIT_values:
  "METERS_TO_UNIT =
     [1, 1152921504606847 / 2 ^ 60, 7387794900731109 / 2 ^ 51,
      2462597549643765 / 2 ^ 51, 5731137678988939 / 2 ^ 63]"
  by (simp only: METERS_TO_UNIT_def binary64_1 METERS_TO_UNIT_km METERS_TO_UNIT_feet
      METERS_TO_UNIT_yards METERS_TO_UNIT_miles)

lemma UNITS_TO_METERS_values:
  "UNITS_TO_METERS =
     [1, 1000, 5490788489984877 / 2 ^ 54, 4118092622683249 / 2 ^ 52,
      1769492441091539 / 2 ^ 40]"
  by (simp only: UNITS_TO_METERS_def binary64_1 METERS_TO_UNIT_km METERS_TO_UNIT_feet
      METERS_TO_UNIT_yards METERS_TO_UNIT_miles reciprocal_km reciprocal_feet
      reciprocal_yards reciprocal_miles)

lemma UNITS_TO_METERS_reciprocals:
  "UNITS_TO_METERS = map (\<lambda>m. binary64 (1 / m)) METERS_TO_UNIT"
proof -
  have "binary64 (1 / 1) = 1" using binary64_1 by simp
  then show ?thesis
    unfolding UNITS_TO_METERS_values METERS_TO_UNIT_values
    by (simp only: list.map reciprocal_km reciprocal_feet reciprocal_yards reciprocal_miles)
qed

lemma entries_meters:
  "UNITS_TO_METERS ! 0 = 1" "METERS_TO_UNIT ! 0 = 1"
  by (simp_all add: UNITS_TO_METERS_values METERS_TO_UNIT_values)

lemma exact_product_meters: "\<bar>UNITS_TO_METERS ! 0 * METERS_TO_UNIT ! 0 - 1\<bar> \<le> 1 / 10 ^ 9"
  unfolding entries_meters by simp

lemma double_product_meters: "binary64 (UNITS_TO_METERS ! 0 * METERS_TO_UNIT ! 0) = 1"
  unfolding entries_meters by (rule product_meters)

lemma entries_km:
  "UNITS_TO_METERS ! 1 = 1000" "METERS_TO_UNIT ! 1 = 1152921504606847 / 2 ^ 60"
  by (simp_all add: UNITS_TO_METERS_values METERS_TO_UNIT_values)

lemma exact_product_km: "\<bar>UNITS_TO_METERS ! 1 * METERS_TO_UNIT ! 1 - 1\<bar> \<le> 1 / 10 ^ 9"
  unfolding entries_km by simp

lemma double_product_km: "binary64 (UNITS_TO_METERS ! 1 * METERS_TO_UNIT ! 1) = 1"
  unfolding entries_km by (rule product_km)

lemma entries_feet:
  "UNITS_TO_METERS ! 2 = 5490788489984877 / 2 ^ 54" "METERS_TO_UNIT ! 2 = 7387794900731109 / 2 ^ 51"
  by (simp_all add: UNITS_TO_METERS_values METERS_TO_UNIT_values)

lemma exact_product_feet: "\<bar>UNITS_TO_METERS ! 2 * METERS_TO_UNIT ! 2 - 1\<bar> \<le> 1 / 10 ^ 9"
  unfolding entries_feet by simp

lemma double_product_feet: "binary64 (UNITS_TO_METERS ! 2 * METERS_TO_UNIT ! 2) = 1"
  unfolding entries_feet by (rule product_feet)

lemma entries_yards:
  "UNITS_TO_METERS ! 3 = 4118092622683249 / 2 ^ 52" "METERS_TO_UNIT ! 3 = 2462597549643765 / 2 ^ 51"
  by (simp_all add: UNITS_TO_METERS_values METERS_TO_UNIT_values)

lemma exact_product_yards: "\<bar>UNITS_TO_METERS ! 3 * METERS_TO_UNIT ! 3 - 1\<bar> \<le> 1 / 10 ^ 9"
  unfolding entries_yards by simp

lemma double_product_yards: "binary64 (UNITS_TO_METERS ! 3 * METERS_TO_UNIT ! 3) = 1"
  unfolding entries_yards by (rule product_yards)

lemma entries_miles:
  "UNITS_TO_METERS ! 4 = 1769492441091539 / 2 ^ 40" "METERS_TO_UNIT ! 4 = 5731137678988939 / 2 ^ 63"
  by (simp_all add: UNITS_TO_METERS_values METERS_TO_UNIT_values)

lemma exact_product_miles: "\<bar>UNITS_TO_METERS ! 4 * METERS_TO_UNIT ! 4 - 1\<bar> \<le> 1 / 10 ^ 9"
  unfolding entries_miles by simp

lemma double_product_miles: "binary64 (UNITS_TO_METERS ! 4 * METERS_TO_UNIT ! 4) = 1"
  unfolding entries_miles by (rule product_miles)

text \<open>
  Claim C6. For every unit index from 0 to 4 the product
  \<open>UNITS_TO_METERS[i] * METERS_TO_UNIT[i]\<close> is 1 within \<open>1e-9\<close>, where the
  meters-to-unit factors are the literals 1, 0.001, 3.28084, 1.093613 and
  6.213711922373339e-4 (as doubles) and the units-to-meters factors are their
  reciprocals (computed in double arithmetic). This holds for the exact product of the
  two table entries, and the product computed in double arithmetic is exactly 1.
\<close>

theorem LengthUnit_tables_reciprocal_within_1e9:
  "METERS_TO_UNIT
     = map binary64 [1, 1 / 1000, 328084 / 100000, 1093613 / 1000000,
                     6213711922373339 / 10000000000000000000]
   \<and> UNITS_TO_METERS = map (\<lambda>m. binary64 (1 / m)) METERS_TO_UNIT
   \<and> \<bar>UNITS_TO_METERS ! 0 * METERS_TO_UNIT ! 0 - 1\<bar> \<le> 1 / 10 ^ 9
   \<and> \<bar>UNITS_TO_METERS ! 1 * METERS_TO_UNIT ! 1 - 1\<bar> \<le> 1 / 10 ^ 9
   \<and> \<bar>UNITS_TO_METERS ! 2 * METERS_TO_UNIT ! 2 - 1\<bar> \<le> 1 / 10 ^ 9
   \<and> \<bar>UNITS_TO_METERS ! 3 * METERS_TO_UNIT ! 3 - 1\<bar> \<le> 1 / 10 ^ 9
   \<and> \<bar>UNITS_TO_METERS ! 4 * METERS_TO_UNIT ! 4 - 1\<bar> \<le> 1 / 10 ^ 9
   \<and> binary64 (UNITS_TO_METERS ! 0 * METERS_TO_UNIT ! 0) = 1
   \<and> binary64 (UNITS_TO_METERS ! 1 * METERS_TO_UNIT ! 1) = 1
   \<and> binary64 (UNITS_TO_METERS ! 2 * METERS_TO_UNIT ! 2) = 1
   \<and> binary64 (UNITS_TO_METERS ! 3 * METERS_TO_UNIT ! 3) = 1
   \<and> binary64 (UNITS_TO_METERS ! 4 * METERS_TO_UNIT ! 4) = 1"
proof -
  have m: "METERS_TO_UNIT
     = map binary64 [1, 1 / 1000, 328084 / 100000, 1093613 / 1000000,
                     6213711922373339 / 10000000000000000000]"
    by (simp only: METERS_TO_UNIT_def list.map)
  show ?thesis
    by (intro conjI m UNITS_TO_METERS_reciprocals
        exact_product_meters exact_product_km exact_product_feet exact_product_yards
        exact_product_miles double_product_meters double_product_km double_product_feet
        double_product_yards double_product_miles)
qed

section \<open>TaskQueue: first in, first out\<close>

lemma ring_TaskQueue: "0 < n \<Longrightarrow> ring (TaskQueue dflt n)"
  by (simp add: ring_def TaskQueue_def)

lemma waiting_tasks_TaskQueue: "waiting_tasks (TaskQueue dflt n) = []"
  by (simp add: waiting_tasks_def TaskQueue_def)

lemma ring_index_neq:
  fixes f i c n :: nat
  assumes "i < c" "c < n"
  shows "(f + i) mod n \<noteq> (f + c) mod n"
proof
  assume e: "(f + i) mod n = (f + c) mod n"
  have le: "f + i \<le> f + c" using assms by simp
  have "n dvd (f + c) - (f + i)"
    using mod_eq_dvd_iff_nat [OF le, of n] e by simp
  then have "n dvd c - i" by simp
  moreover have "0 < c - i" "c - i < n" using assms by simp_all
  ultimately show False using dvd_imp_le [of n "c - i"] by simp
qed

lemma ring_enqueue:
  assumes "ring q" "count_q q \<noteq> size_q q"
  shows "ring (enqueue q task) \<and> waiting_tasks (enqueue q task) = waiting_tasks q @ [task]"
proof -
  let ?n = "size_q q" and ?f = "front_q q" and ?c = "count_q q"
  have n: "0 < ?n" and len: "length (queue_q q) = ?n" and f: "?f < ?n"
    and c: "?c < ?n" and r: "rear_q q = (?f + ?c) mod ?n"
    using assms by (simp_all add: ring_def)
  have r1: "(rear_q q + 1) mod ?n = (?f + (?c + 1)) mod ?n"
    unfolding r by (simp add: mod_simps)
  have inv: "ring (enqueue q task)"
    using n len f c r1 by (simp add: ring_def enqueue_def)
  have old: "\<And>i. i < ?c \<Longrightarrow>
      (queue_q q)[rear_q q := task] ! ((?f + i) mod ?n) = queue_q q ! ((?f + i) mod ?n)"
  proof -
    fix i assume "i < ?c"
    then have "(?f + i) mod ?n \<noteq> rear_q q" unfolding r using c by (rule ring_index_neq)
    then show "(queue_q q)[rear_q q := task] ! ((?f + i) mod ?n) = queue_q q ! ((?f + i) mod ?n)"
      by simp
  qed
  have new: "(queue_q q)[rear_q q := task] ! ((?f + ?c) mod ?n) = task"
    using r len n by simp
  have "waiting_tasks (enqueue q task)
      = map (\<lambda>i. (queue_q q)[rear_q q := task] ! ((?f + i) mod ?n)) [0..<?c]
        @ [(queue_q q)[rear_q q := task] ! ((?f + ?c) mod ?n)]"
    by (simp add: waiting_tasks_def enqueue_def)
  also have "map (\<lambda>i. (queue_q q)[rear_q q := task] ! ((?f + i) mod ?n)) [0..<?c]
      = map (\<lambda>i. queue_q q ! ((?f + i) mod ?n)) [0..<?c]"
    using old by (intro map_cong) simp_all
  finally have "waiting_tasks (enqueue q task) = waiting_tasks q @ [task]"
    using new by (simp add: waiting_tasks_def)
  with inv show ?thesis by simp
qed

lemma ring_process_round:
  assumes "ring q" "0 < count_q q"
  shows "ring (q\<lparr>front_q := (front_q q + 1) mod size_q q, count_q := count_q q - 1\<rparr>)
       \<and> waiting_tasks q = queue_q q ! front_q q
           # waiting_tasks (q\<lparr>front_q := (front_q q + 1) mod size_q q, count_q := count_q q - 1\<rparr>)"
proof -
  let ?n = "size_q q" and ?f = "front_q q" and ?c = "count_q q"
  let ?q' = "q\<lparr>front_q := (?f + 1) mod ?n, count_q := ?c - 1\<rparr>"
  have n: "0 < ?n" and len: "length (queue_q q) = ?n" and f: "?f < ?n"
    and c: "?c \<le> ?n" and r: "rear_q q = (?f + ?c) mod ?n"
    using assms by (simp_all add: ring_def)
  have idx: "\<And>i. ((?f + 1) mod ?n + i) mod ?n = (?f + Suc i) mod ?n"
    by (simp add: mod_simps)
  have "((?f + 1) mod ?n + (?c - 1)) mod ?n = (?f + ?c) mod ?n"
    using assms(2) idx [of "?c - 1"] by simp
  then have inv: "ring ?q'" using n len c r by (simp add: ring_def)
  have "[0..<?c] = 0 # map Suc [0..<?c - 1]"
    using assms(2) by (metis Suc_pred' map_Suc_upt upt_conv_Cons)
  then have "waiting_tasks q = queue_q q ! (?f mod ?n)
      # map (\<lambda>i. queue_q q ! ((?f + Suc i) mod ?n)) [0..<?c - 1]"
    by (simp add: waiting_tasks_def comp_def)
  also have "?f mod ?n = ?f" using f by simp
  also have "map (\<lambda>i. queue_q q ! ((?f + Suc i) mod ?n)) [0..<?c - 1] = waiting_tasks ?q'"
    unfolding waiting_tasks_def by (simp only: idx [symmetric]) simp
  finally show ?thesis using inv by simp
qed

lemma run_fifo:
  assumes "ring q" "submitted = processed @ waiting_tasks q"
    and "run calls (q, submitted, processed) = Some (q', submitted', processed')"
  shows "ring q' \<and> submitted' = processed' @ waiting_tasks q'"
  using assms
proof (induction calls arbitrary: q submitted processed)
  case Nil
  then show ?case by auto
next
  case (Cons call calls)
  note IH = Cons.IH and inv = Cons.prems(1) and fifo = Cons.prems(2) and r = Cons.prems(3)
  show ?case
  proof (cases call)
    case (Post task)
    from r Post have ne: "count_q q \<noteq> size_q q"
      by (auto simp: post_def split: if_splits)
    then have p: "post q task = Some (enqueue q task)" by (simp add: post_def)
    from ring_enqueue [OF inv ne, of task]
    have 1: "ring (enqueue q task)"
      and 2: "submitted @ [task] = processed @ waiting_tasks (enqueue q task)"
      using fifo by simp_all
    have 3: "run calls (enqueue q task, submitted @ [task], processed)
        = Some (q', submitted', processed')"
      using r Post p by simp
    show ?thesis by (rule IH [OF 1 2 3])
  next
    case (TryPost task)
    show ?thesis
    proof (cases "count_q q = size_q q")
      case True
      then have t: "tryPost q task = (False, q)" by (simp add: tryPost_def)
      then have 3: "run calls (q, submitted, processed) = Some (q', submitted', processed')"
        using r TryPost by simp
      show ?thesis by (rule IH [OF inv fifo 3])
    next
      case False
      then have t: "tryPost q task = (True, enqueue q task)" by (simp add: tryPost_def)
      from ring_enqueue [OF inv False, of task]
      have 1: "ring (enqueue q task)"
        and 2: "submitted @ [task] = processed @ waiting_tasks (enqueue q task)"
        using fifo by simp_all
      have 3: "run calls (enqueue q task, submitted @ [task], processed)
          = Some (q', submitted', processed')"
        using r TryPost t by simp
      show ?thesis by (rule IH [OF 1 2 3])
    qed
  next
    case Process
    show ?thesis
    proof (cases "running_q q")
      case False
      then have t: "process_round q = (Finished, q)" by (simp add: process_round_def)
      then have 3: "run calls (q, submitted, processed) = Some (q', submitted', processed')"
        using r Process by simp
      show ?thesis by (rule IH [OF inv fifo 3])
    next
      case True
      from r Process True have pos: "0 < count_q q"
        by (auto simp: process_round_def split: if_splits)
      let ?q1 = "q\<lparr>front_q := (front_q q + 1) mod size_q q, count_q := count_q q - 1\<rparr>"
      let ?t = "queue_q q ! front_q q"
      have t: "process_round q = (Took ?t, ?q1)"
        using True pos by (simp add: process_round_def)
      from ring_process_round [OF inv pos]
      have 1: "ring ?q1" and 2: "submitted = (processed @ [?t]) @ waiting_tasks ?q1"
        using fifo by simp_all
      have 3: "run calls (?q1, submitted, processed @ [?t])
          = Some (q', submitted', processed')"
        using r Process t by simp
      show ?thesis by (rule IH [OF 1 2 3])
    qed
  next
    case Shutdown
    have 1: "ring (shutdown q)" using inv by (simp add: ring_def shutdown_def)
    have 2: "submitted = processed @ waiting_tasks (shutdown q)"
      using fifo by (simp add: waiting_tasks_def shutdown_def)
    have 3: "run calls (shutdown q, submitted, processed) = Some (q', submitted', processed')"
      using r Shutdown by simp
    show ?thesis by (rule IH [OF 1 2 3])
  qed
qed

text \<open>
  Claim C7. The TaskQueue is first-in-first-out. In every run of \<open>post\<close>,
  \<open>tryPost\<close> and \<open>process\<close> calls on a new queue, the tasks handed to
  \<open>processTask\<close> are, in order, the first of the tasks that were accepted, and the
  accepted tasks not yet handed out are the ones in the ring from \<open>front_\<close> on, in
  the order of their submission: no task is reordered, dropped or duplicated. When the
  queue is empty again, the tasks processed are exactly the tasks submitted, in the
  same order.
\<close>

theorem TaskQueue_first_in_first_out:
  assumes "0 < n"
    and "run calls (TaskQueue dflt n, [], []) = Some (q, submitted, processed)"
  shows "submitted = processed @ waiting_tasks q
       \<and> length (waiting_tasks q) = count_q q
       \<and> (count_q q = 0 \<longrightarrow> processed = submitted)"
proof -
  have "ring q \<and> submitted = processed @ waiting_tasks q"
    by (rule run_fifo [OF ring_TaskQueue [OF assms(1)] _ assms(2)])
       (simp add: waiting_tasks_TaskQueue)
  then show ?thesis by (simp add: waiting_tasks_def)
qed

theorem TaskQueue_first_in_first_out_witness:
  "run [TryPost 1, Post 2, TryPost 3, Process, Post 4, Process, TryPost 5, Process]
       (TaskQueue (0::nat) 2, [], [])
     = Some (\<lparr>queue_q = [4, 5], front_q = 1, rear_q = 0, size_q = 2, count_q = 1,
              running_q = True\<rparr>, [1, 2, 4, 5], [1, 2, 4])
   \<and> waiting_tasks \<lparr>queue_q = [4, 5 :: nat], front_q = 1, rear_q = 0, size_q = 2,
                     count_q = 1, running_q = True\<rparr> = [5]
   \<and> run [TryPost 1, Post 2, TryPost 3, Process, Post 4, Process, TryPost 5, Process,
          Process, Shutdown, Process]
       (TaskQueue (0::nat) 2, [], [])
     = Some (\<lparr>queue_q = [4, 5], front_q = 0, rear_q = 0, size_q = 2, count_q = 0,
              running_q = False\<rparr>, [1, 2, 4, 5], [1, 2, 4, 5])"
proof -
  let ?q1 = "\<lparr>queue_q = [4, 5 :: nat], front_q = 1, rear_q = 0, size_q = 2, count_q = 1,
              running_q = True\<rparr>"
  let ?q2 = "\<lparr>queue_q = [4, 5 :: nat], front_q = 0, rear_q = 0, size_q = 2, count_q = 0,
              running_q = False\<rparr>"
  have n: "(0::nat) < 2" by simp
  have r1: "run [TryPost 1, Post 2, TryPost 3, Process, Post 4, Process, TryPost 5, Process]
       (TaskQueue (0::nat) 2, [], []) = Some (?q1, [1, 2, 4, 5], [1, 2, 4])"
    by code_simp
  have r2: "run [TryPost 1, Post 2, TryPost 3, Process, Post 4, Process, TryPost 5, Process,
          Process, Shutdown, Process]
       (TaskQueue (0::nat) 2, [], []) = Some (?q2, [1, 2, 4, 5], [1, 2, 4, 5])"
    by code_simp
  from TaskQueue_first_in_first_out [OF n r1]
  have "[1, 2, 4, 5] = [1, 2, 4] @ waiting_tasks ?q1" by (rule conjunct1)
  then have w: "waiting_tasks ?q1 = [5]" by simp
  from TaskQueue_first_in_first_out [OF n r2]
  have "count_q ?q2 = 0 \<longrightarrow> [1, 2, 4, 5 :: nat] = [1, 2, 4, 5]" by simp
  show ?thesis using r1 w r2 by (intro conjI)
qed

section \<open>BitIterator: the highest bit\<close>

text \<open>
  Away from one value the iterator does what its documentation says: for a type
  narrower than \<^verbatim>\<open>int\<close>, and for every value of a wider type other than the value with
  only the highest bit set, \<open>k\<close> calls return the positions of the set bits in
  increasing order and then \<open>-1\<close> (\<open>BitIterator_calls_as_promised\<close>). For the value
  with only the highest bit set, of a type of 32 bits or more, the first call already
  shifts by the full width (\<open>BitIterator_next_only_top_bit\<close>).
\<close>

lemma ctz_upto_least:
  "\<exists>i<k. bit w i \<Longrightarrow>
     bit w (ctz_upto k w) \<and> ctz_upto k w < k \<and> (\<forall>j < ctz_upto k w. \<not> bit w j)"
proof (induction k arbitrary: w)
  case 0
  then show ?case by simp
next
  case (Suc k)
  show ?case
  proof (cases "bit w 0")
    case True
    then show ?thesis by simp
  next
    case False
    from Suc.prems obtain i where i: "i < Suc k" "bit w i" by blast
    with False have "i \<noteq> 0" by (cases i) auto
    then obtain i' where i': "i = Suc i'" by (cases i) auto
    have "bit (drop_bit 1 w) i'" using i(2) i' by (simp add: bit_drop_bit_eq)
    moreover have "i' < k" using i(1) i' by simp
    ultimately have "\<exists>i<k. bit (drop_bit 1 w) i" by blast
    from Suc.IH [OF this]
    have a: "bit (drop_bit 1 w) (ctz_upto k (drop_bit 1 w))"
      and b: "ctz_upto k (drop_bit 1 w) < k"
      and c: "\<forall>j < ctz_upto k (drop_bit 1 w). \<not> bit (drop_bit 1 w) j"
      by blast+
    have a': "bit w (Suc (ctz_upto k (drop_bit 1 w)))" using a by (simp add: bit_drop_bit_eq)
    have c': "\<forall>j < Suc (ctz_upto k (drop_bit 1 w)). \<not> bit w j"
    proof (intro allI impI)
      fix j assume j: "j < Suc (ctz_upto k (drop_bit 1 w))"
      show "\<not> bit w j"
      proof (cases j)
        case 0
        then show ?thesis using False by simp
      next
        case (Suc j')
        then have "\<not> bit (drop_bit 1 w) j'" using c j by simp
        then show ?thesis using Suc by (simp add: bit_drop_bit_eq)
      qed
    qed
    show ?thesis using False a' b c' by simp
  qed
qed

lemma word_nonzero_bit:
  fixes w :: "'a::len word"
  assumes "w \<noteq> 0"
  shows "\<exists>i<LENGTH('a). bit w i"
proof (rule ccontr)
  assume "\<not> (\<exists>i<LENGTH('a). bit w i)"
  then have "w = 0" by (intro bit_word_eqI) auto
  with assms show False by simp
qed

lemma countTrailingZerosInNonZero_least:
  fixes w :: "'a::len word"
  assumes "w \<noteq> 0"
  shows "bit w (countTrailingZerosInNonZero w)"
    and "countTrailingZerosInNonZero w < LENGTH('a)"
    and "\<forall>j < countTrailingZerosInNonZero w. \<not> bit w j"
  using ctz_upto_least [OF word_nonzero_bit [OF assms]]
  by (simp_all add: countTrailingZerosInNonZero_def)

lemma filter_upt_first:
  assumes "p \<le> m" "m < L" "P m" "\<forall>j. p \<le> j \<and> j < m \<longrightarrow> \<not> P j"
  shows "filter P [p..<L] = m # filter P [Suc m..<L]"
proof -
  have "[p..<L] = [p..<m] @ m # [Suc m..<L]"
    using assms(1,2) by (metis le_add_diff_inverse less_imp_le_nat upt_add_eq_append upt_conv_Cons)
  moreover have "filter P [p..<m] = []" using assms(4) by (simp add: filter_empty_conv)
  ultimately show ?thesis using assms(3) by simp
qed

lemma only_top_bit:
  fixes b :: "'a::len word"
  assumes "bit b (LENGTH('a) - 1)" "\<forall>j < LENGTH('a) - 1. \<not> bit b j"
  shows "b = 2 ^ (LENGTH('a) - 1)"
proof (rule bit_word_eqI)
  fix i assume i: "i < LENGTH('a)"
  show "bit b i \<longleftrightarrow> bit (2 ^ (LENGTH('a) - 1) :: 'a word) i"
  proof (cases "i = LENGTH('a) - 1")
    case True
    then show ?thesis using assms(1) i by (simp add: bit_simps)
  next
    case False
    then have "i < LENGTH('a) - 1" using i by simp
    then have "\<not> bit b i" using assms(2) by simp
    then show ?thesis using False by (simp add: bit_simps)
  qed
qed

lemma BitIterator_next_zero:
  "BitIterator_next \<lparr>bits = 0, pos = q\<rparr> = Inr (- 1, \<lparr>bits = 0, pos = q\<rparr>)"
  by (simp add: BitIterator_next_def)

lemma BitIterator_next_nonzero:
  fixes b :: "'a::len word"
  assumes nz: "drop_bit p b \<noteq> 0"
    and ok: "0 < p \<or> LENGTH('a) < 32 \<or> b \<noteq> 2 ^ (LENGTH('a) - 1)"
  shows "\<exists>n. p + n < LENGTH('a)
       \<and> filter (bit b) [p..<LENGTH('a)] = (p + n) # filter (bit b) [Suc (p + n)..<LENGTH('a)]
       \<and> BitIterator_next \<lparr>bits = drop_bit p b, pos = int p\<rparr>
           = Inr (int (p + n), \<lparr>bits = drop_bit (Suc (p + n)) b, pos = int (Suc (p + n))\<rparr>)"
proof -
  let ?w = "drop_bit p b"
  let ?L = "LENGTH('a)"
  define n where "n = countTrailingZerosInNonZero ?w"
  have bn: "bit ?w n" and lt: "\<forall>j < n. \<not> bit ?w j"
    using countTrailingZerosInNonZero_least [OF nz] by (simp_all add: n_def)
  have bpn: "bit b (p + n)" using bn by (simp add: bit_drop_bit_eq add.commute)
  then have pn: "p + n < ?L" by (rule bit_imp_le_length)
  have below: "\<forall>j. p \<le> j \<and> j < p + n \<longrightarrow> \<not> bit b j"
  proof (intro allI impI)
    fix j assume j: "p \<le> j \<and> j < p + n"
    then have "j - p < n" by linarith
    then have "\<not> bit ?w (j - p)" using lt by simp
    then show "\<not> bit b j" using j by (simp add: bit_drop_bit_eq)
  qed
  have f: "filter (bit b) [p..<?L] = (p + n) # filter (bit b) [Suc (p + n)..<?L]"
    by (rule filter_upt_first [OF _ pn bpn below]) simp
  have shift_ok: "\<not> promoted_width ?w \<le> n + 1"
  proof (cases "0 < p \<or> ?L < 32")
    case True
    then show ?thesis using pn by (auto simp: promoted_width_def)
  next
    case False
    then have p0: "p = 0" and ne: "b \<noteq> 2 ^ (?L - 1)" using ok by auto
    have "n \<noteq> ?L - 1"
    proof
      assume e: "n = ?L - 1"
      have "b = 2 ^ (?L - 1)"
        by (rule only_top_bit) (use bpn below p0 e in auto)
      with ne show False by simp
    qed
    then have "n + 1 < ?L" using pn p0 by simp
    then show ?thesis by (simp add: promoted_width_def)
  qed
  have d: "drop_bit (n + 1) ?w = drop_bit (Suc (p + n)) b"
    by (simp add: drop_bit_drop_bit add.commute)
  have "BitIterator_next \<lparr>bits = ?w, pos = int p\<rparr>
      = Inr (int (p + n), \<lparr>bits = drop_bit (Suc (p + n)) b, pos = int (Suc (p + n))\<rparr>)"
    using nz shift_ok d
    by (simp add: BitIterator_next_def Let_def n_def [symmetric])
  with pn f show ?thesis by blast
qed

lemma BitIterator_calls_from:
  fixes b :: "'a::len word"
  assumes "0 < p \<or> LENGTH('a) < 32 \<or> b \<noteq> 2 ^ (LENGTH('a) - 1)"
  shows "\<exists>it. BitIterator_calls k \<lparr>bits = drop_bit p b, pos = int p\<rparr>
      = Inr (promised_results k (filter (bit b) [p..<LENGTH('a)]), it)"
  using assms
proof (induction k arbitrary: p)
  case 0
  then show ?case by simp
next
  case (Suc k)
  show ?case
  proof (cases "drop_bit p b = 0")
    case True
    have "\<forall>j \<in> set [p..<LENGTH('a)]. \<not> bit b j"
    proof
      fix j assume "j \<in> set [p..<LENGTH('a)]"
      then have j: "p \<le> j" by simp
      have "\<not> bit (drop_bit p b) (j - p)" using True by simp
      then show "\<not> bit b j" using j by (simp add: bit_drop_bit_eq)
    qed
    then have e: "filter (bit b) [p..<LENGTH('a)] = []" by (simp add: filter_empty_conv)
    from Suc.IH [OF Suc.prems] obtain it where
      "BitIterator_calls k \<lparr>bits = drop_bit p b, pos = int p\<rparr>
        = Inr (promised_results k (filter (bit b) [p..<LENGTH('a)]), it)"
      by blast
    then show ?thesis using True by (simp add: e BitIterator_next_zero)
  next
    case False
    from BitIterator_next_nonzero [OF False Suc.prems] obtain n where
      f: "filter (bit b) [p..<LENGTH('a)] = (p + n) # filter (bit b) [Suc (p + n)..<LENGTH('a)]"
      and nx: "BitIterator_next \<lparr>bits = drop_bit p b, pos = int p\<rparr>
           = Inr (int (p + n), \<lparr>bits = drop_bit (Suc (p + n)) b, pos = int (Suc (p + n))\<rparr>)"
      by blast
    have "0 < Suc (p + n) \<or> LENGTH('a) < 32 \<or> b \<noteq> 2 ^ (LENGTH('a) - 1)" by simp
    from Suc.IH [OF this] obtain it where
      "BitIterator_calls k \<lparr>bits = drop_bit (Suc (p + n)) b, pos = int (Suc (p + n))\<rparr>
        = Inr (promised_results k (filter (bit b) [Suc (p + n)..<LENGTH('a)]), it)"
      by blast
    then show ?thesis by (simp add: f nx)
  qed
qed

lemma BitIterator_calls_as_promised:
  fixes b :: "'a::len word"
  assumes "LENGTH('a) < 32 \<or> b \<noteq> 2 ^ (LENGTH('a) - 1)"
  shows "\<exists>it. BitIterator_calls k (BitIterator b)
      = Inr (promised_results k (filter (bit b) [0..<LENGTH('a)]), it)"
proof -
  have "0 < (0::nat) \<or> LENGTH('a) < 32 \<or> b \<noteq> 2 ^ (LENGTH('a) - 1)" using assms by simp
  from BitIterator_calls_from [OF this, of k] show ?thesis by (simp add: BitIterator_def)
qed

lemma BitIterator_next_only_top_bit:
  assumes "32 \<le> LENGTH('a::len)"
  shows "BitIterator_next (BitIterator (2 ^ (LENGTH('a) - 1) :: 'a word))
     = Inl ShiftCountOutOfRange"
proof -
  let ?b = "2 ^ (LENGTH('a) - 1) :: 'a word"
  have top: "bit ?b (LENGTH('a) - 1)" by (simp add: bit_simps)
  then have nz: "?b \<noteq> 0" by auto
  have "bit ?b (countTrailingZerosInNonZero ?b)"
    by (rule countTrailingZerosInNonZero_least(1) [OF nz])
  then have n: "countTrailingZerosInNonZero ?b = LENGTH('a) - 1"
    by (simp add: bit_simps)
  show ?thesis
    using nz assms n
    by (simp add: BitIterator_next_def BitIterator_def promoted_width_def Let_def)
qed

lemma BitIterator_calls_low_bits:
  "BitIterator_calls 4 (BitIterator (0x15 :: 32 word))
     = Inr ([0, 2, 4, - 1], \<lparr>bits = 0, pos = 5\<rparr>)"
  by code_simp

lemma BitIterator_calls_byte_top_bit:
  "BitIterator_calls 4 (BitIterator (0x81 :: 8 word))
     = Inr ([0, 7, - 1, - 1], \<lparr>bits = 0, pos = 8\<rparr>)"
  by code_simp

lemma BitIterator_calls_top_and_low_bit:
  "BitIterator_calls 3 (BitIterator (0x80000001 :: 32 word))
     = Inr ([0, 31, - 1], \<lparr>bits = 0, pos = 32\<rparr>)"
  by code_simp

text \<open>
  Claim C8. For every value \<open>b\<close> of an unsigned integer type \<open>T\<close>, the successive
  calls of \<open>next()\<close> on a BitIterator made from \<open>b\<close> return the positions of the
  set bits of \<open>b\<close> in increasing order and then \<open>-1\<close> for ever, also when the highest
  bit of \<open>T\<close> is set and the shift amount reaches the bit width of \<open>T\<close>.

  The code does not do that for the 32-bit value \<open>b = 0x80000000\<close>, the one value of
  a 32-bit \<open>T\<close> for which the shift amount reaches the width: the first call finds
  \<open>n = 31\<close>, and \<open>bits_ >>= n + 1\<close> then shifts a 32-bit operand by 32 places,
  which C++ leaves undefined. The call has no defined result, and no later call
  returns the promised \<open>-1\<close> under defined behaviour.
\<close>

theorem BitIterator_next_top_bit_undefined:
  "countTrailingZerosInNonZero (0x80000000 :: 32 word) = 31
   \<and> BitIterator_next (BitIterator (0x80000000 :: 32 word)) = Inl ShiftCountOutOfRange
   \<and> BitIterator_calls 2 (BitIterator (0x80000000 :: 32 word)) = Inl ShiftCountOutOfRange"
  by code_simp

section \<open>Deduplicator: insert finds equal content\<close>

lemma find_existing_None: "find_existing eq item chain = None \<longleftrightarrow> (\<forall>e \<in> set chain. \<not> eq item e)"
  by (induction chain) auto

lemma find_existing_Some: "find_existing eq item chain = Some r \<Longrightarrow> r \<in> set chain \<and> eq item r"
  by (induction chain) (auto split: if_splits)

lemma items_slot:
  assumes "chained_by_hash hash d" "e \<in> items d" 
  shows "e \<in> set (table d ! (unat (hash e) mod tableSize d))"
proof -
  from assms(2) obtain chain where c: "chain \<in> set (table d)" "e \<in> set chain"
    by (auto simp: items_def)
  from c(1) obtain i where "i < length (table d)" "table d ! i = chain"
    by (auto simp: in_set_conv_nth)
  with c(2) have i: "i < length (table d)" "e \<in> set (table d ! i)" by simp_all
  with assms(1) have "unat (hash e) mod tableSize d = i"
    by (simp add: chained_by_hash_def tableSize_def)
  with i show ?thesis by simp
qed

lemma slot_items:
  assumes "i < tableSize d" "e \<in> set (table d ! i)"
  shows "e \<in> items d"
  using assms by (auto simp: items_def tableSize_def)

lemma insert_item_existing:
  assumes h: "\<forall>x y. eq x y \<longrightarrow> hash x = hash y"
    and wf: "chained_by_hash hash d"
    and ex: "\<exists>e \<in> items d. eq item e"
  shows "\<exists>r \<in> items d. eq item r \<and> insert_item hash eq d item = Inr (r, d)"
proof -
  from ex obtain e where e: "e \<in> items d" "eq item e" by blast
  let ?slot = "unat (hash item) mod tableSize d"
  have pos: "0 < tableSize d" using wf by (simp add: chained_by_hash_def)
  have "hash item = hash e" using h e(2) by blast
  then have "e \<in> set (table d ! ?slot)" using items_slot[OF wf e(1)] by simp
  then have "find_existing eq item (table d ! ?slot) \<noteq> None"
    using e(2) by (auto simp: find_existing_None)
  then obtain r where r: "find_existing eq item (table d ! ?slot) = Some r" by blast
  have "r \<in> set (table d ! ?slot)" "eq item r" using find_existing_Some[OF r] by simp_all
  moreover have "?slot < tableSize d" using pos by simp
  ultimately have "r \<in> items d" using slot_items by metis
  moreover have "insert_item hash eq d item = Inr (r, d)"
    using pos r by (simp add: insert_item_def)
  ultimately show ?thesis using \<open>eq item r\<close> by blast
qed

lemma insert_item_new:
  assumes wf: "chained_by_hash hash d"
    and nex: "\<forall>e \<in> items d. \<not> eq item e"
  shows "insert_item hash eq d item =
     Inr (item, d\<lparr>table := (table d)[unat (hash item) mod tableSize d
                      := item # table d ! (unat (hash item) mod tableSize d)],
                   count := count d + 1\<rparr>)"
proof -
  let ?slot = "unat (hash item) mod tableSize d"
  have pos: "0 < tableSize d" using wf by (simp add: chained_by_hash_def)
  have "?slot < tableSize d" using pos by simp
  then have "\<forall>e \<in> set (table d ! ?slot). \<not> eq item e"
    using nex slot_items by metis
  then have "find_existing eq item (table d ! ?slot) = None"
    by (simp add: find_existing_None)
  then show ?thesis using pos by (simp add: insert_item_def Let_def)
qed

lemma chained_init: "0 < n \<Longrightarrow> chained_by_hash hash (Deduplicator_init n)"
  by (simp add: chained_by_hash_def Deduplicator_init_def tableSize_def)

lemma items_init: "items (Deduplicator_init n) = {}"
  by (auto simp: items_def Deduplicator_init_def)

lemma insert_item_twice:
  assumes h: "\<forall>x y. eq x y \<longrightarrow> hash x = hash y"
    and n: "0 < n" and ba: "eq b a"
  shows "\<exists>d1. insert_item hash eq (Deduplicator_init n) a = Inr (a, d1)
            \<and> insert_item hash eq d1 b = Inr (a, d1) \<and> count d1 = 1"
proof -
  let ?slot = "unat (hash a) mod n"
  let ?d1 = "\<lparr>table = (replicate n [])[?slot := [a]], count = 1 :: 64 word\<rparr>"
  have slot: "?slot < n" using n by simp
  have 1: "insert_item hash eq (Deduplicator_init n) a = Inr (a, ?d1)"
    using n slot by (simp add: insert_item_def Deduplicator_init_def tableSize_def)
  have "hash b = hash a" using h ba by blast
  then have 2: "insert_item hash eq ?d1 b = Inr (a, ?d1)"
    using n slot ba by (simp add: insert_item_def tableSize_def)
  show ?thesis using 1 2 by (intro exI[of _ ?d1]) simp
qed

lemma chained_by_hash_push:
  assumes wf: "chained_by_hash hash d"
  shows "chained_by_hash hash
     (d\<lparr>table := (table d)[unat (hash item) mod tableSize d
                      := item # table d ! (unat (hash item) mod tableSize d)],
        count := c\<rparr>)"
    (is "chained_by_hash hash ?d'")
proof -
  let ?n = "tableSize d"
  let ?slot = "unat (hash item) mod ?n"
  let ?t = "(table d)[?slot := item # table d ! ?slot]"
  have pos: "0 < ?n" using wf by (simp add: chained_by_hash_def)
  have old: "\<forall>i < ?n. \<forall>x \<in> set (table d ! i). unat (hash x) mod ?n = i"
    using wf by (simp add: chained_by_hash_def)
  have size: "tableSize ?d' = ?n" by (simp add: tableSize_def)
  have tab: "table ?d' = ?t" by simp
  have "\<forall>i < ?n. \<forall>x \<in> set (?t ! i). unat (hash x) mod ?n = i"
  proof (intro allI impI ballI)
    fix i x assume i: "i < ?n" and x: "x \<in> set (?t ! i)"
    show "unat (hash x) mod ?n = i"
    proof (cases "i = ?slot")
      case True
      have "?t ! i = item # table d ! i"
        using True i by (simp add: tableSize_def)
      then have "x = item \<or> x \<in> set (table d ! i)" using x by auto
      then show ?thesis
      proof
        assume "x = item" then show ?thesis using True by simp
      next
        assume "x \<in> set (table d ! i)" then show ?thesis using old i by blast
      qed
    next
      case False
      then have "?t ! i = table d ! i" by simp
      then have "x \<in> set (table d ! i)" using x by simp
      then show ?thesis using old i by blast
    qed
  qed
  then show ?thesis
    unfolding chained_by_hash_def size tab using pos by blast
qed

lemma chained_insert_item:
  assumes "chained_by_hash hash d" "insert_item hash eq d item = Inr (r, d')"
  shows "chained_by_hash hash d'"
proof -
  have pos: "0 < tableSize d" using assms(1) by (simp add: chained_by_hash_def)
  show ?thesis
  proof (cases "find_existing eq item (table d ! (unat (hash item) mod tableSize d))")
    case None
    then have "d' = d\<lparr>table := (table d)[unat (hash item) mod tableSize d
                      := item # table d ! (unat (hash item) mod tableSize d)],
        count := count d + 1\<rparr>"
      using assms(2) pos by (auto simp add: insert_item_def Let_def)
    then show ?thesis using chained_by_hash_push[OF assms(1)] by simp
  next
    case (Some a)
    then have "d' = d" using assms(2) pos by (simp add: insert_item_def Let_def)
    then show ?thesis using assms(1) by simp
  qed
qed

lemma chained_insertUnique:
  assumes "chained_by_hash hash d" "insertUnique hash d item = Inr d'"
  shows "chained_by_hash hash d'"
proof -
  have pos: "0 < tableSize d" using assms(1) by (simp add: chained_by_hash_def)
  then have "d' = d\<lparr>table := (table d)[unat (hash item) mod tableSize d
                      := item # table d ! (unat (hash item) mod tableSize d)],
        count := count d + 1\<rparr>"
    using assms(2) by (simp add: insertUnique_def Let_def)
  then show ?thesis using chained_by_hash_push[OF assms(1)] by simp
qed

text \<open>
  Claim C9. \<open>insert\<close> is idempotent on content. For a hash that depends on the
  content only (items that compare equal have equal hashes) and a table in which every
  item sits in the chain of its hash (as the insert operations build it): if the table
  already holds an item comparing equal to the argument, \<open>insert\<close> returns such an
  item of the table and leaves the table and the count as they are; otherwise it puts
  the argument at the head of its hash chain, returns the argument, and adds exactly 1
  to the count. So inserting two equal items into an empty table gives count 1, and
  both calls return the first item.
\<close>

theorem insert_item_idempotent_on_content:
  assumes "\<forall>x y. eq x y \<longrightarrow> hash x = hash y"
    and "chained_by_hash hash d"
  shows "((\<exists>e \<in> items d. eq item e) \<longrightarrow>
            (\<exists>r \<in> items d. eq item r \<and> insert_item hash eq d item = Inr (r, d)))
       \<and> ((\<forall>e \<in> items d. \<not> eq item e) \<longrightarrow>
            insert_item hash eq d item =
              Inr (item, d\<lparr>table := (table d)[unat (hash item) mod tableSize d
                               := item # table d ! (unat (hash item) mod tableSize d)],
                            count := count d + 1\<rparr>))
       \<and> (0 < n \<and> eq b a \<longrightarrow>
            (\<exists>d1. insert_item hash eq (Deduplicator_init n) a = Inr (a, d1)
                 \<and> insert_item hash eq d1 b = Inr (a, d1) \<and> count d1 = 1))"
proof (intro conjI impI)
  assume "\<exists>e \<in> items d. eq item e"
  then show "\<exists>r \<in> items d. eq item r \<and> insert_item hash eq d item = Inr (r, d)"
    by (rule insert_item_existing [OF assms])
next
  assume "\<forall>e \<in> items d. \<not> eq item e"
  then show "insert_item hash eq d item =
      Inr (item, d\<lparr>table := (table d)[unat (hash item) mod tableSize d
                       := item # table d ! (unat (hash item) mod tableSize d)],
                    count := count d + 1\<rparr>)"
    by (rule insert_item_new [OF assms(2)])
next
  assume "0 < n \<and> eq b a"
  then show "\<exists>d1. insert_item hash eq (Deduplicator_init n) a = Inr (a, d1)
                 \<and> insert_item hash eq d1 b = Inr (a, d1) \<and> count d1 = 1"
    using insert_item_twice [OF assms(1)] by blast
qed

theorem insert_item_idempotent_on_content_witness:
  "insert_item (\<lambda>x :: nat \<times> nat. of_nat (snd x)) (\<lambda>x y. snd x = snd y)
       \<lparr>table = [[], [], [], [(1, 7)]], count = 1\<rparr> (2, 7)
     = Inr ((1, 7), \<lparr>table = [[], [], [], [(1, 7)]], count = 1\<rparr>)
   \<and> insert_item (\<lambda>x :: nat \<times> nat. of_nat (snd x)) (\<lambda>x y. snd x = snd y)
       \<lparr>table = [[], [], [], [(1, 7)]], count = 1\<rparr> (3, 11)
     = Inr ((3, 11), \<lparr>table = [[], [], [], [(3, 11), (1, 7)]], count = 2\<rparr>)
   \<and> (\<exists>d1. insert_item (\<lambda>x :: nat \<times> nat. of_nat (snd x)) (\<lambda>x y. snd x = snd y)
              (Deduplicator_init 4) (1, 7) = Inr ((1, 7), d1)
           \<and> insert_item (\<lambda>x :: nat \<times> nat. of_nat (snd x)) (\<lambda>x y. snd x = snd y)
              d1 (2, 7) = Inr ((1, 7), d1)
           \<and> count d1 = 1)"
proof -
  let ?hash = "\<lambda>x :: nat \<times> nat. of_nat (snd x) :: 64 word"
  let ?eq = "\<lambda>x y :: nat \<times> nat. snd x = snd y"
  let ?d = "\<lparr>table = [[], [], [], [(1::nat, 7::nat)]], count = 1 :: 64 word\<rparr>"
  have h: "\<forall>x y. ?eq x y \<longrightarrow> ?hash x = ?hash y" by simp
  have wf0: "chained_by_hash ?hash (Deduplicator_init 4)" by (rule chained_init) simp
  have first: "insert_item ?hash ?eq (Deduplicator_init 4) (1, 7) = Inr ((1, 7), ?d)"
    by code_simp
  have wf: "chained_by_hash ?hash ?d" by (rule chained_insert_item [OF wf0 first])
  have it: "items ?d = {(1, 7)}" by (simp add: items_def)
  note inst = insert_item_idempotent_on_content [OF h wf, of _ 4 "(2, 7)" "(1, 7)"]
  have "\<exists>e \<in> items ?d. ?eq (2, 7) e" unfolding it by simp
  with inst [of "(2, 7)"]
  obtain r where r: "r \<in> items ?d" "insert_item ?hash ?eq ?d (2, 7) = Inr (r, ?d)"
    by blast
  from r(1) have "r = (1, 7)" unfolding it by simp
  with r(2) have a: "insert_item ?hash ?eq ?d (2, 7) = Inr ((1, 7), ?d)" by simp
  have ev: "?d\<lparr>table := (table ?d)[unat (?hash (3, 11)) mod tableSize ?d
                       := (3, 11) # table ?d ! (unat (?hash (3, 11)) mod tableSize ?d)],
             count := count ?d + 1\<rparr>
      = \<lparr>table = [[], [], [], [(3, 11), (1, 7)]], count = 2\<rparr>"
    by code_simp
  have "\<forall>e \<in> items ?d. \<not> ?eq (3, 11) e" unfolding it by simp
  with inst [of "(3, 11)"]
  have "insert_item ?hash ?eq ?d (3, 11) =
      Inr ((3, 11), ?d\<lparr>table := (table ?d)[unat (?hash (3, 11)) mod tableSize ?d
                       := (3, 11) # table ?d ! (unat (?hash (3, 11)) mod tableSize ?d)],
                    count := count ?d + 1\<rparr>)"
    by blast
  then have b: "insert_item ?hash ?eq ?d (3, 11)
      = Inr ((3, 11), \<lparr>table = [[], [], [], [(3, 11), (1, 7)]], count = 2\<rparr>)"
    by (simp only: ev)
  have "(0::nat) < 4 \<and> ?eq (2, 7) (1, 7)" by simp
  with inst [of "(2, 7)"]
  have c: "\<exists>d1. insert_item ?hash ?eq (Deduplicator_init 4) (1, 7) = Inr ((1, 7), d1)
           \<and> insert_item ?hash ?eq d1 (2, 7) = Inr ((1, 7), d1) \<and> count d1 = 1"
    by blast
  show ?thesis using a b c by (intro conjI)
qed

section \<open>Segments: the first page of a 1 GiB segment\<close>

lemma segment_mask:
  assumes "s \<le> 30"
  shows "drop_bit s (0x3fffffff :: 32 word) = mask (30 - s)"
proof -
  have e: "(0x3fffffff :: 32 word) = mask 30" by (simp add: mask_eq_exp_minus_1)
  show ?thesis unfolding e using assms
    by (intro bit_word_eqI) (auto simp: bit_simps)
qed

lemma unat_take_bit_mod: "unat (take_bit n (w :: 'a::len word)) = unat w mod 2 ^ n"
  by (simp only: unsigned_take_bit_eq) (simp add: take_bit_eq_mod)

lemma isFirstPageOfSegment_mod:
  assumes "s \<le> 30"
  shows "isFirstPageOfSegment s page \<longleftrightarrow> unat page mod 2 ^ (30 - s) = 0"
proof -
  have "isFirstPageOfSegment s page \<longleftrightarrow> take_bit (30 - s) page = 0"
    by (simp add: isFirstPageOfSegment_def segment_mask[OF assms] take_bit_eq_mask)
  also have "\<dots> \<longleftrightarrow> unat (take_bit (30 - s) page) = 0"
    by (simp only: unat_eq_0)
  also have "\<dots> \<longleftrightarrow> unat page mod 2 ^ (30 - s) = 0"
    by (simp only: unat_take_bit_mod)
  finally show ?thesis .
qed

lemma unat_pageOffset:
  assumes "s \<le> 30"
  shows "unat (pageOffset s page) = unat page * 2 ^ s"
proof -
  have lt: "unat page < 2 ^ 32" using unsigned_less[of page] by simp
  have "unat page * 2 ^ s < 2 ^ 32 * 2 ^ s" using lt by simp
  also have "\<dots> = 2 ^ (32 + s)" by (simp add: power_add)
  also have "\<dots> \<le> (2::nat) ^ 64" using assms by (intro power_increasing) auto
  finally have b: "unat page * 2 ^ s < 2 ^ 64" .
  have lt64: "unat page < 2 ^ 64" using lt by simp
  have "unat (pageOffset s page) = take_bit 64 (push_bit s (unat (ucast page :: 64 word)))"
    by (simp add: pageOffset_def unsigned_push_bit_eq)
  also have "unat (ucast page :: 64 word) = unat page"
    using lt64 by (simp add: unsigned_ucast_eq take_bit_nat_eq_self)
  also have "take_bit 64 (push_bit s (unat page)) = unat page * 2 ^ s"
    using b by (simp add: push_bit_eq_mult take_bit_nat_eq_self)
  finally show ?thesis .
qed

lemma isFirstPageOfSegment_offset:
  assumes "s \<le> 30"
  shows "isFirstPageOfSegment s page \<longleftrightarrow> unat (pageOffset s page) mod 2 ^ 30 = 0"
proof -
  have "(2::nat) ^ 30 = 2 ^ (30 - s) * 2 ^ s" using assms by (simp flip: power_add)
  then have "unat page * 2 ^ s mod 2 ^ 30 = (unat page mod 2 ^ (30 - s)) * 2 ^ s"
    by (simp add: mult_mod_left mult_mod_right)
  then show ?thesis
    by (simp add: isFirstPageOfSegment_mod[OF assms] unat_pageOffset[OF assms])
qed

text \<open>
  Claim C10. For every page number and every page-size shift from 0 to 30,
  \<open>isFirstPageOfSegment\<close> holds exactly when the byte offset of the page
  (the page number shifted left by the page-size shift, as a 64-bit value) is a
  multiple of 1 GiB, which is the same as the page number being congruent to 0
  modulo \<open>2 ^ (30 - pageSizeShift)\<close>.
\<close>

theorem isFirstPageOfSegment_iff_segment_start:
  assumes "pageSizeShift \<le> 30"
  shows "(isFirstPageOfSegment pageSizeShift page
            \<longleftrightarrow> unat (pageOffset pageSizeShift page) mod 2 ^ 30 = 0)
       \<and> (isFirstPageOfSegment pageSizeShift page
            \<longleftrightarrow> unat page mod 2 ^ (30 - pageSizeShift) = 0)"
  by (rule conjI [OF isFirstPageOfSegment_offset [OF assms] isFirstPageOfSegment_mod [OF assms]])

theorem isFirstPageOfSegment_iff_segment_start_witness:
  "(12::nat) \<le> 30
   \<and> isFirstPageOfSegment 12 0x40000
   \<and> unat (pageOffset 12 0x40000) mod 2 ^ 30 = 0
   \<and> unat (0x40000 :: PageNum) mod 2 ^ (30 - 12) = 0
   \<and> \<not> isFirstPageOfSegment 12 0x40001
   \<and> unat (pageOffset 12 0x40001) mod 2 ^ 30 \<noteq> 0"
  using isFirstPageOfSegment_iff_segment_start [of 12 "0x40000"]
        isFirstPageOfSegment_iff_segment_start [of 12 "0x40001"]
  by (simp add: isFirstPageOfSegment_def)

end
